theory Spec2Isabelle
  imports Complex_Main "HOL-Library.Word"
begin

unbundle bit_operations_syntax

section \<open>JavaScript values used by the generator\<close>

text \<open>
  A JavaScript string is modelled as a \<^typ>\<open>string\<close>: one \<^typ>\<open>char\<close> per UTF-16 code
  unit, restricted to the code units below 256. Every character the source tests for
  (the letters of the word pattern, the accented vowels of \<open>#normalizeLetter\<close>, the
  default empty marker U+00B7) lies in that range.
\<close>

datatype error = TypeError | RangeError

text \<open>\<open>Array.prototype.indexOf\<close>; \<open>None\<close> stands for the result \<open>-1\<close>.\<close>

fun indexOf :: "'a list \<Rightarrow> 'a \<Rightarrow> nat option" where
  "indexOf [] v = None"
| "indexOf (x # xs) v = (if x = v then Some 0 else map_option Suc (indexOf xs v))"

definition digitChar :: "nat \<Rightarrow> char" where
  "digitChar d = char_of (48 + d)"

text \<open>The decimal rendering of a non-negative integer, as \<open>"" + i\<close> produces it.\<close>

fun showNat :: "nat \<Rightarrow> string" where
  "showNat n = (if n < 10 then [digitChar n] else showNat (n div 10) @ [digitChar (n mod 10)])"

declare showNat.simps [simp del]

definition showInt :: "int \<Rightarrow> string" where
  "showInt i = (if i < 0 then CHR ''-'' # showNat (nat (- i)) else showNat (nat i))"

text \<open>
  A score is a JavaScript number: \<open>NaN\<close>, one of the two infinities, or a finite value,
  which is held exactly as a rational (the rounding of finite values is not modelled).
  \<open>numDiv a b\<close> is \<open>a / b\<close> on two finite numbers, \<open>numSub\<close> is \<open>-\<close>, \<open>numGeq\<close> is \<open>>=\<close>
  and \<open>numPositive v\<close> is \<open>v > 0\<close>; every comparison with \<open>NaN\<close> is false.
\<close>

datatype number = NaN | NegInfinity | Fin rat | Infinity

definition numDiv :: "rat \<Rightarrow> rat \<Rightarrow> number" where
  "numDiv a b =
    (if b \<noteq> 0 then Fin (a / b)
     else if a = 0 then NaN else if 0 < a then Infinity else NegInfinity)"

fun numSub :: "number \<Rightarrow> number \<Rightarrow> number" where
  "numSub NaN b = NaN"
| "numSub a NaN = NaN"
| "numSub (Fin a) (Fin b) = Fin (a - b)"
| "numSub Infinity Infinity = NaN"
| "numSub NegInfinity NegInfinity = NaN"
| "numSub Infinity b = Infinity"
| "numSub NegInfinity b = NegInfinity"
| "numSub a Infinity = NegInfinity"
| "numSub a NegInfinity = Infinity"

fun numPositive :: "number \<Rightarrow> bool" where
  "numPositive (Fin v) = (0 < v)"
| "numPositive Infinity = True"
| "numPositive v = False"

fun numGeq :: "number \<Rightarrow> number \<Rightarrow> bool" where
  "numGeq NaN b = False"
| "numGeq a NaN = False"
| "numGeq (Fin a) (Fin b) = (b \<le> a)"
| "numGeq Infinity b = True"
| "numGeq a NegInfinity = True"
| "numGeq a b = False"

section \<open>Dictionary compilation (\<open>compile\<close>)\<close>

record compilation =
  words :: "string list"
  letters :: "string \<rightharpoonup> nat list"
  lengths :: "nat list list"
  phrases :: "string list"
  cquestions :: "(nat list \<times> nat list) option list"

text \<open>The white space class \<open>\s\<close> of the regular expression \<open>/\s+/\<close>.\<close>

definition isSpace :: "char \<Rightarrow> bool" where
  "isSpace c = (of_char c \<in> {9, 10, 11, 12, 13, 32, 160 :: nat})"

definition hasSpace :: "string \<Rightarrow> bool" where
  "hasSpace item = (\<exists>c \<in> set item. isSpace c)"

text \<open>The character class \<open>[A-Z0-9\<dots>]\<close> with the seven accented capitals of the source.\<close>

definition inClass :: "char \<Rightarrow> bool" where
  "inClass c = (let n = (of_char c :: nat) in
     (65 \<le> n \<and> n \<le> 90) \<or> (48 \<le> n \<and> n \<le> 57) \<or> n \<in> {193, 201, 205, 211, 218, 220, 209})"

text \<open>\<open>word.match(/[A-Z0-9\<dots>]+/)\<close>: the first maximal run of class characters, if any.\<close>

definition matchClass :: "string \<Rightarrow> string option" where
  "matchClass word = (let rest = dropWhile (\<lambda>c. \<not> inClass c) word in
     if rest = [] then None else Some (takeWhile inClass rest))"

definition accepted :: "string \<Rightarrow> bool" where
  "accepted word = (matchClass word = Some word \<and> length word > 1)"

text \<open>
  The state of the first loop: the global \<open>words\<close>, \<open>phrases\<close> and \<open>groupMap\<close>, and
  the per-line \<open>set1\<close>, \<open>set2\<close> and \<open>idxMap\<close>.
\<close>

record lineState =
  set1 :: "string list"
  set2 :: "string list"
  idxMap :: "string \<rightharpoonup> nat"
  lwords :: "string list"
  lphrases :: "string list"

definition pushUnique :: "string list \<Rightarrow> string \<Rightarrow> string list \<times> nat" where
  "pushUnique xs item = (case indexOf xs item of
       None \<Rightarrow> (xs @ [item], length (xs @ [item]) - 1)
     | Some idx \<Rightarrow> (xs, idx))"

definition addItem :: "lineState \<Rightarrow> string \<Rightarrow> lineState" where
  "addItem s item =
    (if length item > 1 then
       (if \<not> hasSpace item then
          (let (ws, idx) = pushUnique (lwords s) item
           in s\<lparr>set1 := set1 s @ [item], lwords := ws, idxMap := (idxMap s)(item \<mapsto> idx)\<rparr>)
        else
          (let (ps, idx) = pushUnique (lphrases s) item
           in s\<lparr>set2 := set2 s @ [item], lphrases := ps, idxMap := (idxMap s)(item \<mapsto> idx)\<rparr>))
     else s)"

type_synonym groupMap = "nat \<rightharpoonup> nat list \<times> nat list"

definition addGroup :: "lineState \<Rightarrow> groupMap \<Rightarrow> string \<Rightarrow> groupMap" where
  "addGroup s gm item =
    (let itemIdx = the (idxMap s item);
         groupItem = (case gm itemIdx of Some g \<Rightarrow> g | None \<Rightarrow> ([], []));
         g0 = fst groupItem @ map (\<lambda>item2. the (idxMap s item2)) (filter (\<lambda>item2. item \<noteq> item2) (set1 s));
         g1 = snd groupItem @ map (\<lambda>item2. the (idxMap s item2)) (set2 s)
     in gm(itemIdx \<mapsto> (g0, g1)))"

definition addLine :: "string list \<times> string list \<times> groupMap \<Rightarrow> string list \<Rightarrow>
    string list \<times> string list \<times> groupMap" where
  "addLine st line = (case st of (ws, ps, gm) \<Rightarrow>
     (let s = foldl addItem \<lparr>set1 = [], set2 = [], idxMap = Map.empty, lwords = ws, lphrases = ps\<rparr> line;
          gm' = (if length (set1 s) > 0 \<and> length (set1 s) + length (set2 s) > 1
                 then foldl (addGroup s) gm (set1 s) else gm)
      in (lwords s, lphrases s, gm')))"

text \<open>The second loop: one accepted word is entered into \<open>lengths\<close> and \<open>letters\<close>.\<close>

definition letterKey :: "nat \<Rightarrow> string \<Rightarrow> string" where
  "letterKey i c = showNat i @ c"

definition addLength :: "nat list list \<Rightarrow> nat \<Rightarrow> nat \<Rightarrow> nat list list" where
  "addLength ls len idx =
    (let ls' = (if len < length ls then ls else ls @ replicate (len + 1 - length ls) [])
     in ls'[len := ls' ! len @ [idx]])"

definition addLetter :: "string \<Rightarrow> nat \<Rightarrow> (string \<rightharpoonup> nat list) \<Rightarrow> nat \<Rightarrow> (string \<rightharpoonup> nat list)" where
  "addLetter word idx lt i =
    (let letter = letterKey i [word ! i]
     in lt(letter \<mapsto> (case lt letter of None \<Rightarrow> [] | Some l \<Rightarrow> l) @ [idx]))"

definition addWord :: "nat list list \<times> (string \<rightharpoonup> nat list) \<Rightarrow> string \<times> nat \<Rightarrow>
    nat list list \<times> (string \<rightharpoonup> nat list)" where
  "addWord st wi = (case st of (ls, lt) \<Rightarrow> (case wi of (word, idx) \<Rightarrow>
     (if accepted word
      then (addLength ls (length word) idx, foldl (addLetter word idx) lt [0..<length word])
      else (ls, lt))))"

text \<open>
  \<open>compile\<close>. The progress callback and the delay only report to the caller and are
  left out; everything that reaches the returned object is kept.
\<close>

definition compile :: "string list list list \<Rightarrow> compilation" where
  "compile dictionaries =
    (let data = concat dictionaries;
         (ws, ps, gm) = foldl addLine ([], [], Map.empty) data;
         (ls, lt) = foldl addWord ([], Map.empty) (zip ws [0..<length ws])
     in \<lparr>words = ws, letters = lt, lengths = ls, phrases = ps,
         cquestions = map gm [0..<length ws]\<rparr>)"

text \<open>\<open>compilation.lengths[len]\<close>, with \<open>None\<close> for \<open>undefined\<close>.\<close>

definition lengthsAt :: "compilation \<Rightarrow> int \<Rightarrow> nat list option" where
  "lengthsAt cpl len =
    (if 0 \<le> len \<and> nat len < length (lengths cpl) then Some (lengths cpl ! nat len) else None)"

section \<open>Options, grids and the generator\<close>

record options =
  compilation :: compilation
  width :: nat
  height :: nat
  emptySpace :: string
  wordsPerIteration :: nat
  solutionsPerIteration :: nat
  selectedSolutions :: nat
  wordsOnBorder :: rat
  minimumLengthFactor :: rat
  finishAt :: nat
  scoreFunction :: "int \<Rightarrow> int \<Rightarrow> int \<Rightarrow> number"

text \<open>
  The default \<open>scoreFunction\<close> of \<open>ConwordsGenerator.options\<close>; a score function of the
  caller may return any number. The random numbers and the two factors of the options
  are finite and held as exact rationals.
\<close>

definition defaultScore :: "int \<Rightarrow> int \<Rightarrow> int \<Rightarrow> number" where
  "defaultScore filled crosses singles =
     numDiv (of_int filled * 4 + 2 * of_int crosses) (1 + of_int singles * 4)"

text \<open>
  A pseudo-random source is the sequence of numbers the generator function returns on
  successive calls. The functions below thread the number of calls made so far. A call
  returns a number in \<open>[0, 1)\<close>: the fractional part of the sequence element.
\<close>

type_synonym source = "nat \<Rightarrow> rat"

definition rand :: "source \<Rightarrow> nat \<Rightarrow> rat" where
  "rand src n = frac (src n)"

text \<open>
  The generator instance: its options, the public set \<open>ignored\<close> and \<open>this.random\<close>,
  the source that \<open>generate\<close> seeds.
\<close>

record generator =
  options :: options
  ignored :: "nat set"
  random :: source

text \<open>A cell is the array \<open>[letter, partOfVertical, partOfHorizontal]\<close>.\<close>

record cell =
  letter :: string
  inVertical :: bool
  inHorizontal :: bool

text \<open>An entry of \<open>questionsData\<close>; \<open>horizontal\<close> is the number 1 (true) or 0.\<close>

record question =
  q_idx :: nat
  q_word :: string
  q_horizontal :: bool
  q_x :: int
  q_y :: int

text \<open>
  The matrix: its rows, and the properties the source attaches to the array. The flags
  \<open>finish\<close> and \<open>borde\<close> are absent (falsy) on a new matrix; the fields below
  \<open>borde\<close> are written by \<open>#selectSolutions\<close> before they are read.
\<close>

record matrix =
  rows :: "cell list list"
  questions :: "nat set"
  questionsData :: "question list"
  mwidth :: nat
  mheight :: nat
  finish :: bool
  borde :: bool
  hash :: int
  intersections :: int
  isolatedWords :: int
  singlesIdx :: "question list"
  fillingPercentage :: int
  score :: number

text \<open>
  \<open>generate\<close>. \<open>Array.prototype.fill\<close> puts one and the same cell array into every
  column of a row, but no cell of that matrix is ever written: \<open>iterate\<close> writes to the
  copy made by \<open>rfdc\<close>, which copies every element on its own, and \<open>fillEmptySpaces\<close>
  finds no point in a matrix that has no flag set. So a matrix is modelled as a value
  with one cell per position.
\<close>

definition generate :: "generator \<Rightarrow> matrix" where
  "generate G =
    (let opts = options G in
     \<lparr>rows = replicate (height opts) (replicate (width opts)
         \<lparr>letter = emptySpace opts, inVertical = False, inHorizontal = False\<rparr>),
      questions = {}, questionsData = [], mwidth = width opts, mheight = height opts,
      finish = False, borde = False, hash = 0, intersections = 0, isolatedWords = 0,
      singlesIdx = [], fillingPercentage = 0, score = Fin 0\<rparr>)"

text \<open>
  \<open>matrix[cy][cx]\<close>; \<open>None\<close> when the row or the cell is \<open>undefined\<close>, where reading
  or writing a component of the cell raises a \<open>TypeError\<close>.
\<close>

definition cellAt :: "matrix \<Rightarrow> int \<Rightarrow> int \<Rightarrow> cell option" where
  "cellAt m cx cy =
    (if 0 \<le> cy \<and> nat cy < length (rows m) then
       (if 0 \<le> cx \<and> nat cx < length (rows m ! nat cy)
        then Some (rows m ! nat cy ! nat cx) else None)
     else None)"

definition setCell :: "matrix \<Rightarrow> int \<Rightarrow> int \<Rightarrow> cell \<Rightarrow> matrix" where
  "setCell m cx cy c = m\<lparr>rows := (rows m)[nat cy := (rows m ! nat cy)[nat cx := c]]\<rparr>"

text \<open>\<open>matrix[cy][cx][0] !== this.options.emptySpace\<close>.\<close>

definition occupied :: "generator \<Rightarrow> matrix \<Rightarrow> int \<Rightarrow> int \<Rightarrow> error + bool" where
  "occupied G m cx cy = (case cellAt m cx cy of
       None \<Rightarrow> Inl TypeError
     | Some c \<Rightarrow> Inr (letter c \<noteq> emptySpace (options G)))"

section \<open>Scoring and selection (\<open>#selectSolutions\<close>)\<close>

text \<open>
  \<open>#hashCode\<close>: \<open>hash << 5\<close> and \<open>hash & hash\<close> work on 32-bit integers, so the loop is
  arithmetic modulo \<open>2^32\<close>, read as a signed number.
\<close>

definition hashStep :: "32 word \<Rightarrow> char \<Rightarrow> 32 word" where
  "hashStep h c = push_bit 5 h - h + of_nat (of_char c)"

definition hashCode :: "string \<Rightarrow> int" where
  "hashCode str = sint (foldl hashStep 0 str)"

definition questionText :: "question \<Rightarrow> string" where
  "questionText q = q_word q @ ''_'' @ (if q_horizontal q then ''1'' else ''0'') @ ''_''
     @ showInt (q_x q) @ ''_'' @ showInt (q_y q)"

text \<open>The test of the two inner loops of \<open>#getIntersections\<close>.\<close>

definition crosses :: "question \<Rightarrow> question \<Rightarrow> bool" where
  "crosses question1 question2 =
    (q_word question1 \<noteq> q_word question2 \<and> q_horizontal question1 \<noteq> q_horizontal question2 \<and>
     (if q_horizontal question1 then
        q_x question1 \<le> q_x question2 \<and>
        q_x question1 + int (length (q_word question1)) > q_x question2 \<and>
        q_y question1 \<ge> q_y question2 \<and>
        q_y question1 < q_y question2 + int (length (q_word question2))
      else
        q_y question1 \<le> q_y question2 \<and>
        q_y question1 + int (length (q_word question1)) > q_y question2 \<and>
        q_x question1 \<ge> q_x question2 \<and>
        q_x question1 < q_x question2 + int (length (q_word question2))))"

definition subCruces :: "matrix \<Rightarrow> question \<Rightarrow> nat" where
  "subCruces m question1 = length (filter (crosses question1) (questionsData m))"

text \<open>\<open>#getIntersections\<close> returns \<open>[crosses, singles]\<close> and sets \<open>singlesIdx\<close>.\<close>

definition getIntersections :: "matrix \<Rightarrow> int \<times> int \<times> question list" where
  "getIntersections m =
    (int (sum_list (map (subCruces m) (questionsData m))),
     int (length (filter (\<lambda>q. subCruces m q = 0) (questionsData m))),
     filter (\<lambda>q. subCruces m q = 0) (questionsData m))"

definition getFillingPercentage :: "generator \<Rightarrow> matrix \<Rightarrow> int" where
  "getFillingPercentage G m =
     foldl (\<lambda>acc fila. acc + int (length (filter (\<lambda>c. letter c \<noteq> emptySpace (options G)) fila)))
       0 (rows m)"

text \<open>The first \<open>forEach\<close> of \<open>#selectSolutions\<close>, for one matrix.\<close>

definition annotate :: "generator \<Rightarrow> matrix \<Rightarrow> matrix" where
  "annotate G m =
    (let h = hashCode (foldl (\<lambda>prev current. prev @ questionText current) [] (questionsData m));
         (cr, si, sg) = getIntersections m;
         fp = getFillingPercentage G m
     in m\<lparr>hash := h, intersections := cr, isolatedWords := si, singlesIdx := sg,
          fillingPercentage := fp, score := scoreFunction (options G) fp cr si\<rparr>)"

text \<open>The second \<open>forEach\<close>: the hashes seen so far and the matrices kept.\<close>

definition addUnique :: "int list \<times> matrix list \<Rightarrow> matrix \<Rightarrow> int list \<times> matrix list" where
  "addUnique st m = (case st of (uniqueSolutionsIndices, uniqueSolutions) \<Rightarrow>
     (if hash m \<notin> set uniqueSolutionsIndices
      then (uniqueSolutionsIndices @ [hash m], uniqueSolutions @ [m])
      else (uniqueSolutionsIndices, uniqueSolutions)))"

text \<open>
  \<open>Array.prototype.sort\<close> on integer keys with the comparator \<open>b.key - a.key\<close>, as
  \<open>fillEmptySpaces\<close> sorts its points: the sort is stable, so an element goes behind
  every element whose key is not smaller.
\<close>

fun insertDesc :: "('a \<Rightarrow> 'k::linorder) \<Rightarrow> 'a \<Rightarrow> 'a list \<Rightarrow> 'a list" where
  "insertDesc f a [] = [a]"
| "insertDesc f a (b # bs) = (if f b < f a then a # b # bs else b # insertDesc f a bs)"

definition sortDesc :: "('a \<Rightarrow> 'k::linorder) \<Rightarrow> 'a list \<Rightarrow> 'a list" where
  "sortDesc f xs = foldl (\<lambda>acc a. insertDesc f a acc) [] xs"

text \<open>
  \<open>Array.prototype.sort\<close> with a comparator that returns a number. The sort reads a
  result \<open>NaN\<close> as \<open>+0\<close>, and \<open>b\<close> goes behind \<open>a\<close> when \<open>comparefn(b, a) > 0\<close>. An
  element is entered behind the elements sorted so far and moves towards the front past
  every element that the comparator puts behind it; \<open>insertBack\<close> works on the sorted
  part in reverse, last element first. When no result is \<open>NaN\<close> this is the one order
  a stable sort can give. When a score is \<open>NaN\<close> the comparator is not consistent and
  ECMAScript leaves the order to the engine: the model then keeps the order of this
  insertion, in which an element stays behind a neighbour it cannot be compared with.
\<close>

fun insertBack :: "('a \<Rightarrow> 'a \<Rightarrow> number) \<Rightarrow> 'a \<Rightarrow> 'a list \<Rightarrow> 'a list" where
  "insertBack comparefn a [] = [a]"
| "insertBack comparefn a (b # rs) =
    (if numPositive (comparefn b a) then b # insertBack comparefn a rs else a # b # rs)"

definition sortWith :: "('a \<Rightarrow> 'a \<Rightarrow> number) \<Rightarrow> 'a list \<Rightarrow> 'a list" where
  "sortWith comparefn xs = rev (foldl (\<lambda>acc a. insertBack comparefn a acc) [] xs)"

text \<open>
  \<open>#selectSolutions\<close>. The count \<open>cantidadRetornada\<close> is a natural number, as the option
  \<open>selectedSolutions\<close> is.
\<close>

definition selectSolutions :: "generator \<Rightarrow> matrix list \<Rightarrow> nat \<Rightarrow> matrix list" where
  "selectSolutions G solutions cantidadRetornada =
    (let annotated = map (annotate G) solutions;
         uniqueSolutions = snd (foldl addUnique ([], []) annotated);
         sorted = sortWith (\<lambda>a b. numSub (score b) (score a)) uniqueSolutions
     in take (min (length sorted) cantidadRetornada) sorted)"


section \<open>Placing one word (\<open>#generateQuestion\<close>)\<close>

definition getPreguntasPorPosicion :: "matrix \<Rightarrow> int \<Rightarrow> int \<Rightarrow> question list" where
  "getPreguntasPorPosicion m px py = filter (\<lambda>question.
      (q_horizontal question \<and> q_x question \<le> px \<and>
       q_x question + int (length (q_word question)) > px \<and> q_y question = py) \<or>
      (\<not> q_horizontal question \<and> q_y question \<le> py \<and>
       q_y question + int (length (q_word question)) > py \<and> q_x question = px))
     (questionsData m)"

text \<open>\<open>String.prototype.replace\<close> with a one-character pattern: the first occurrence.\<close>

fun replaceFirst :: "char \<Rightarrow> char \<Rightarrow> string \<Rightarrow> string" where
  "replaceFirst a b [] = []"
| "replaceFirst a b (c # cs) = (if c = a then b # cs else c # replaceFirst a b cs)"

text \<open>\<open>#normalizeLetter\<close>: the six lower-case accented letters lose their accent.\<close>

definition normalizeLetter :: "string \<Rightarrow> string" where
  "normalizeLetter l =
     replaceFirst (CHR 0xFC) CHR ''u'' (replaceFirst (CHR 0xFA) CHR ''u''
       (replaceFirst (CHR 0xF3) CHR ''o'' (replaceFirst (CHR 0xED) CHR ''i''
         (replaceFirst (CHR 0xE9) CHR ''e'' (replaceFirst (CHR 0xE1) CHR ''a'' l)))))"

definition charAt :: "string \<Rightarrow> nat \<Rightarrow> string" where
  "charAt w i = (if i < length w then [w ! i] else [])"

text \<open>The target length; the argument \<open>r\<close> is the random number of the second operand.\<close>

definition targetLength :: "generator \<Rightarrow> matrix \<Rightarrow> bool \<Rightarrow> rat \<Rightarrow> int" where
  "targetLength G m horizontal r =
    (let opts = options G; L = int (length (lengths (compilation opts)))
     in max (max 2 (min (int (width opts)) (min (int (height opts)) (L div 3 - 1))
                    - \<lfloor>of_nat (length (questionsData m)) * minimumLengthFactor opts\<rfloor>))
            \<lfloor>r * of_int (min (if horizontal then int (width opts) else int (height opts)) L)\<rfloor>)"

text \<open>The start position; \<open>rx\<close> and \<open>ry\<close> are the random numbers drawn for \<open>x\<close> and \<open>y\<close>.\<close>

definition startPosition :: "generator \<Rightarrow> matrix \<Rightarrow> bool \<Rightarrow> int \<Rightarrow> rat \<Rightarrow> rat \<Rightarrow> int \<times> int" where
  "startPosition G m horizontal len rx ry =
    (let opts = options G; w = int (width opts); h = int (height opts) in
     if wordsOnBorder opts \<noteq> 0 \<and> \<not> borde m then
       (if horizontal then \<lfloor>rx * of_int (w - len)\<rfloor> else \<lfloor>rx * 2\<rfloor> * (w - 1),
        if horizontal then \<lfloor>ry * 2\<rfloor> * (h - 1) else \<lfloor>ry * of_int (h - len)\<rfloor>)
     else
       (if horizontal then \<lfloor>rx * of_int (w - len)\<rfloor> else \<lfloor>rx * of_int w\<rfloor>,
        if horizontal then \<lfloor>ry * of_int h\<rfloor> else \<lfloor>ry * of_int (h - len)\<rfloor>))"

text \<open>\<open>a && b\<close> and \<open>a || b\<close> where the right operand reads a cell and may raise.\<close>

definition andE :: "bool \<Rightarrow> error + bool \<Rightarrow> error + bool" where
  "andE a b = (if a then b else Inr False)"

definition orE :: "error + bool \<Rightarrow> error + bool \<Rightarrow> error + bool" where
  "orE a b = (case a of Inl e \<Rightarrow> Inl e | Inr True \<Rightarrow> Inr True | Inr False \<Rightarrow> b)"

text \<open>The first test: the cell before the start or behind the end is occupied.\<close>

definition endsBlocked :: "generator \<Rightarrow> matrix \<Rightarrow> bool \<Rightarrow> int \<Rightarrow> int \<Rightarrow> int \<Rightarrow> error + bool" where
  "endsBlocked G m horizontal len x y =
    (let opts = options G; w = int (width opts); h = int (height opts) in
     orE (andE (horizontal \<and> x > 0) (occupied G m (x - 1) y))
    (orE (andE (horizontal \<and> x < w - len) (occupied G m (x + len) y))
    (orE (andE (\<not> horizontal \<and> y > 0) (occupied G m x (y - 1)))
         (andE (\<not> horizontal \<and> y < h - len) (occupied G m x (y + len))))))"

record span =
  s_ok :: bool
  vecinoAdjacente :: "nat set"
  vecinoCruce :: "nat set"
  s_matches :: "string list"

text \<open>One round of the loop over the cells of the span, after the overlap test.\<close>

definition spanStep :: "generator \<Rightarrow> matrix \<Rightarrow> bool \<Rightarrow> int \<Rightarrow> int \<Rightarrow> nat \<Rightarrow> cell \<Rightarrow> span \<Rightarrow> span" where
  "spanStep G m horizontal x y i c s =
    (let opts = options G; w = int (width opts); h = int (height opts);
         vecinos1 = (if horizontal
                   then (if y > 0 then getPreguntasPorPosicion m (x + int i) (y - 1) else [])
                   else (if x > 0 then getPreguntasPorPosicion m (x - 1) (y + int i) else []));
         vecinos2 = (if horizontal
                  then (if y < h - 1 then getPreguntasPorPosicion m (x + int i) (y + 1) else [])
                  else (if x < w - 1 then getPreguntasPorPosicion m (x + 1) (y + int i) else []));
         cruce = (if horizontal then getPreguntasPorPosicion m (x + int i) y
                 else getPreguntasPorPosicion m x (y + int i))
     in s\<lparr>vecinoAdjacente := vecinoAdjacente s \<union> q_idx ` set vecinos1 \<union> q_idx ` set vecinos2,
          vecinoCruce := vecinoCruce s \<union> q_idx ` set cruce,
          s_matches := (if letter c \<noteq> emptySpace opts
                        then s_matches s @ [letterKey i (letter c)] else s_matches s)\<rparr>)"

text \<open>The component \<open>[1 + horizontal]\<close> of a cell: the flag of the orientation.\<close>

definition flag :: "bool \<Rightarrow> cell \<Rightarrow> bool" where
  "flag horizontal c = (if horizontal then inHorizontal c else inVertical c)"

text \<open>
  The cell of index \<open>i\<close> of a word that starts at \<open>(x, y)\<close>: \<open>matrix[y][x + i]\<close> for a
  horizontal word, \<open>matrix[y + i][x]\<close> for a vertical one.
\<close>

definition spanX :: "bool \<Rightarrow> int \<Rightarrow> nat \<Rightarrow> int" where
  "spanX horizontal x i = (if horizontal then x + int i else x)"

definition spanY :: "bool \<Rightarrow> int \<Rightarrow> nat \<Rightarrow> int" where
  "spanY horizontal y i = (if horizontal then y else y + int i)"

fun spanLoop :: "generator \<Rightarrow> matrix \<Rightarrow> bool \<Rightarrow> int \<Rightarrow> int \<Rightarrow> nat list \<Rightarrow> span \<Rightarrow> error + span" where
  "spanLoop G m horizontal x y [] s = Inr s"
| "spanLoop G m horizontal x y (i # is) s =
    (case cellAt m (spanX horizontal x i) (spanY horizontal y i) of
       None \<Rightarrow> Inl TypeError
     | Some c \<Rightarrow>
        (if flag horizontal c
         then Inr (s\<lparr>s_ok := False\<rparr>)
         else spanLoop G m horizontal x y is (spanStep G m horizontal x y i c s)))"

text \<open>A word satisfies every recorded constraint through \<open>compilation.letters\<close>.\<close>

definition satisfies :: "compilation \<Rightarrow> string list \<Rightarrow> nat \<Rightarrow> bool" where
  "satisfies cpl ms palabra = (\<forall>match \<in> set ms.
     case letters cpl match of None \<Rightarrow> False | Some palabrasMatch \<Rightarrow> palabra \<in> set palabrasMatch)"

text \<open>
  The loop that draws a word not yet used. The source counts \<open>count\<close> up to 100; the
  argument here is the number of draws left, 100 at the call.
\<close>

fun pickIdx :: "generator \<Rightarrow> matrix \<Rightarrow> nat list \<Rightarrow> nat \<Rightarrow> nat \<Rightarrow> nat option \<times> nat" where
  "pickIdx G m palabras 0 pos = (None, pos)"
| "pickIdx G m palabras (Suc n) pos =
    (let idx = palabras ! nat \<lfloor>rand (random G) pos * of_nat (length palabras)\<rfloor> in
     if n = 0 then (None, pos + 1)
     else if idx \<in> questions m then pickIdx G m palabras n (pos + 1)
     else (Some idx, pos + 1))"

text \<open>Writing to \<open>matrix[cy][cx]\<close> raises when the cell is \<open>undefined\<close>.\<close>

definition writeCell :: "matrix \<Rightarrow> int \<Rightarrow> int \<Rightarrow> (cell \<Rightarrow> cell) \<Rightarrow> error + matrix" where
  "writeCell m cx cy f = (case cellAt m cx cy of
       None \<Rightarrow> Inl TypeError
     | Some c \<Rightarrow> Inr (setCell m cx cy (f c)))"

definition mark :: "bool \<Rightarrow> string \<Rightarrow> cell \<Rightarrow> cell" where
  "mark horizontal l c =
     (if horizontal then c\<lparr>letter := l, inHorizontal := True\<rparr>
      else c\<lparr>letter := l, inVertical := True\<rparr>)"

text \<open>The loop that writes the letters; \<open>letra i\<close> is the string stored for index \<open>i\<close>.\<close>

fun writeWord :: "matrix \<Rightarrow> bool \<Rightarrow> int \<Rightarrow> int \<Rightarrow> (nat \<Rightarrow> string) \<Rightarrow> nat list \<Rightarrow> error + matrix" where
  "writeWord m horizontal x y letra [] = Inr m"
| "writeWord m horizontal x y letra (i # is) =
    (case writeCell m (spanX horizontal x i) (spanY horizontal y i) (mark horizontal (letra i)) of
       Inl e \<Rightarrow> Inl e
     | Inr m' \<Rightarrow> writeWord m' horizontal x y letra is)"

text \<open>\<open>llevo / total > wordsOnBorder\<close>; a positive number over 0 is \<open>Infinity\<close>.\<close>

definition coverageExceeds :: "nat \<Rightarrow> nat \<Rightarrow> rat \<Rightarrow> bool" where
  "coverageExceeds llevo tot limit =
     (if tot = 0 then llevo > 0 else of_nat llevo / of_nat tot > limit)"

definition addQuestion :: "generator \<Rightarrow> matrix \<Rightarrow> question \<Rightarrow> matrix" where
  "addQuestion G m q =
    (let opts = options G;
         m' = m\<lparr>questions := insert (q_idx q) (questions m), questionsData := questionsData m @ [q]\<rparr>
     in if wordsOnBorder opts \<noteq> 0 \<and> \<not> borde m' then
          m'\<lparr>borde := coverageExceeds (length (concat (map q_word (questionsData m'))))
                         ((width opts + height opts) * 2) (wordsOnBorder opts)\<rparr>
        else m')"

datatype attempt = Placed matrix nat | Failed nat

text \<open>
  One round of the \<open>while\<close> loop from the draw of the orientation on. The result is
  the matrix with the new word and the number of random numbers drawn, or the failure
  of the attempt, or the exception raised.
\<close>

definition placeChosen :: "generator \<Rightarrow> matrix \<Rightarrow> bool \<Rightarrow> int \<Rightarrow> int \<Rightarrow> int \<Rightarrow> nat \<Rightarrow> nat \<Rightarrow> error + attempt" where
  "placeChosen G m horizontal len x y idx pos =
    (let cpl = compilation (options G) in
     if idx < length (words cpl) then
       (let word = words cpl ! idx in
        case writeWord m horizontal x y (\<lambda>i. normalizeLetter (charAt word i)) [0..<nat len] of
          Inl e \<Rightarrow> Inl e
        | Inr m' \<Rightarrow> Inr (Placed (addQuestion G m'
              \<lparr>q_idx = idx, q_word = word, q_horizontal = horizontal, q_x = x, q_y = y\<rparr>) pos))
     else Inl TypeError)"

definition attempt :: "generator \<Rightarrow> matrix \<Rightarrow> nat \<Rightarrow> error + attempt" where
  "attempt G m pos =
    (let opts = options G; cpl = compilation opts;
         horizontal = (\<lfloor>rand (random G) pos * 2\<rfloor> = 1);
         len = targetLength G m horizontal (rand (random G) (pos + 1))
     in case lengthsAt cpl len of
          None \<Rightarrow> Inl TypeError
        | Some bucket \<Rightarrow>
           (let palabras = filter (\<lambda>palabra. palabra \<notin> ignored G) bucket;
                xy = startPosition G m horizontal len (rand (random G) (pos + 2))
                       (rand (random G) (pos + 3));
                x = fst xy; y = snd xy
            in case endsBlocked G m horizontal len x y of
                 Inl e \<Rightarrow> Inl e
               | Inr blocked \<Rightarrow>
                  (case (if blocked
                         then Inr \<lparr>s_ok = False, vecinoAdjacente = {}, vecinoCruce = {}, s_matches = []\<rparr>
                         else spanLoop G m horizontal x y [0..<nat len]
                                \<lparr>s_ok = True, vecinoAdjacente = {}, vecinoCruce = {}, s_matches = []\<rparr>) of
                     Inl e \<Rightarrow> Inl e
                   | Inr s \<Rightarrow>
                      (if s_ok s \<and> vecinoAdjacente s - vecinoCruce s = {} then
                         (let palabras' = (if s_matches s \<noteq> []
                                           then filter (satisfies cpl (s_matches s)) palabras
                                           else palabras);
                              ok = (s_matches s \<noteq> [] \<or> \<not> (wordsOnBorder opts \<noteq> 0 \<and> borde m))
                          in if ok \<and> palabras' \<noteq> [] then
                               (case pickIdx G m palabras' 100 (pos + 4) of
                                  (None, pos') \<Rightarrow> Inr (Failed pos')
                                | (Some idx, pos') \<Rightarrow> placeChosen G m horizontal len x y idx pos')
                             else Inr (Failed (pos + 4)))
                       else Inr (Failed (pos + 4))))))"

text \<open>
  The head of a round: the attempt counter, already incremented, is compared with
  \<open>finishAt\<close>. \<open>Stop\<close> is the \<open>return\<close> of the finished matrix.
\<close>

datatype budget = Stop matrix | Go nat matrix

definition checkBudget :: "generator \<Rightarrow> nat \<Rightarrow> matrix \<Rightarrow> budget" where
  "checkBudget G intento m =
    (if intento = finishAt (options G) then
       (if wordsOnBorder (options G) \<noteq> 0 \<and> \<not> borde m
        then Go 0 (m\<lparr>borde := True\<rparr>)
        else Stop (m\<lparr>finish := True\<rparr>))
     else Go intento m)"

text \<open>
  The \<open>while (true)\<close> loop. It need not end (\<open>finishAt = 0\<close> is never reached), so the
  first argument bounds the number of rounds and \<open>None\<close> says that the bound was hit.
\<close>

fun generateQuestionLoop :: "nat \<Rightarrow> generator \<Rightarrow> nat \<Rightarrow> matrix \<Rightarrow> nat \<Rightarrow> (error + matrix \<times> nat) option" where
  "generateQuestionLoop 0 G intento m pos = None"
| "generateQuestionLoop (Suc fuel) G intento m pos =
    (if finish m then Some (Inr (m, pos))
     else (case checkBudget G (intento + 1) m of
        Stop m' \<Rightarrow> Some (Inr (m', pos))
      | Go intento' m' \<Rightarrow>
         (case attempt G m' pos of
            Inl e \<Rightarrow> Some (Inl e)
          | Inr (Placed m'' pos') \<Rightarrow> Some (Inr (m'', pos'))
          | Inr (Failed pos') \<Rightarrow> generateQuestionLoop fuel G intento' m' pos')))"

definition generateQuestion :: "nat \<Rightarrow> generator \<Rightarrow> matrix \<Rightarrow> nat \<Rightarrow> (error + matrix \<times> nat) option" where
  "generateQuestion fuel G matrixClone pos = generateQuestionLoop fuel G 0 matrixClone pos"

section \<open>One generation (\<open>iterate\<close>)\<close>

text \<open>The inner loop: \<open>#generateQuestion\<close> applied \<open>wordsPerIteration\<close> times.\<close>

fun placeWords :: "nat \<Rightarrow> generator \<Rightarrow> nat \<Rightarrow> matrix \<Rightarrow> nat \<Rightarrow> (error + matrix \<times> nat) option" where
  "placeWords fuel G 0 m pos = Some (Inr (m, pos))"
| "placeWords fuel G (Suc k) m pos =
    (case generateQuestion fuel G m pos of
       None \<Rightarrow> None
     | Some (Inl e) \<Rightarrow> Some (Inl e)
     | Some (Inr (m', pos')) \<Rightarrow> placeWords fuel G k m' pos')"

text \<open>
  The outer loop over \<open>i\<close>. The clone is a deep copy, which a value is already. An empty
  array of matrices gives \<open>undefined\<close> for \<open>matrices[idx]\<close>, and reading a property of it
  raises.
\<close>

fun iterateLoop :: "nat \<Rightarrow> generator \<Rightarrow> matrix list \<Rightarrow> nat list \<Rightarrow> matrix list \<Rightarrow> nat \<Rightarrow>
    (error + matrix list \<times> nat) option" where
  "iterateLoop fuel G matrices [] solutions pos = Some (Inr (solutions, pos))"
| "iterateLoop fuel G matrices (i # is) solutions pos =
    (let idx = (length matrices * i) div solutionsPerIteration (options G) in
     if idx < length matrices then
       (case placeWords fuel G (wordsPerIteration (options G)) (matrices ! idx) pos of
          None \<Rightarrow> None
        | Some (Inl e) \<Rightarrow> Some (Inl e)
        | Some (Inr (clonedMatrix, pos')) \<Rightarrow>
            iterateLoop fuel G matrices is (solutions @ [clonedMatrix]) pos')
     else Some (Inl TypeError))"

text \<open>\<open>iterate\<close> on an array of matrices (a single matrix is wrapped into one).\<close>

definition iterate :: "nat \<Rightarrow> generator \<Rightarrow> matrix list \<Rightarrow> nat \<Rightarrow> (error + matrix list \<times> nat) option" where
  "iterate fuel G matrices pos =
    (case iterateLoop fuel G matrices [0..<solutionsPerIteration (options G)] [] pos of
       None \<Rightarrow> None
     | Some (Inl e) \<Rightarrow> Some (Inl e)
     | Some (Inr (solutions, pos')) \<Rightarrow>
         Some (Inr (selectSolutions G solutions (selectedSolutions (options G)), pos')))"


section \<open>Filling the empty spaces (\<open>fillEmptySpaces\<close>)\<close>

record point =
  p_x :: int
  p_y :: int
  p_size :: int
  p_horizontal :: bool

text \<open>
  The four inner \<open>while\<close> loops. Each returns the end of the run and its collision
  flag. \<open>above\<close> and \<open>below\<close> are the tests \<open>y > 0 && \<dots>\<close> and \<open>y < height - 1 && \<dots>\<close>
  on the neighbours of the cell.
\<close>

definition above :: "generator \<Rightarrow> matrix \<Rightarrow> int \<Rightarrow> int \<Rightarrow> error + bool" where
  "above G m cx cy = andE (cy > 0) (occupied G m cx (cy - 1))"

definition below :: "generator \<Rightarrow> matrix \<Rightarrow> int \<Rightarrow> int \<Rightarrow> error + bool" where
  "below G m cx cy = andE (cy < int (height (options G)) - 1) (occupied G m cx (cy + 1))"

definition leftOf :: "generator \<Rightarrow> matrix \<Rightarrow> int \<Rightarrow> int \<Rightarrow> error + bool" where
  "leftOf G m cx cy = andE (cx > 0) (occupied G m (cx - 1) cy)"

definition rightOf :: "generator \<Rightarrow> matrix \<Rightarrow> int \<Rightarrow> int \<Rightarrow> error + bool" where
  "rightOf G m cx cy = andE (cx < int (width (options G)) - 1) (occupied G m (cx + 1) cy)"

function scanLeft :: "generator \<Rightarrow> matrix \<Rightarrow> int \<Rightarrow> int \<Rightarrow> error + int \<times> bool" where
  "scanLeft G m y x1 =
    (if x1 < 0 then Inr (0, False)
     else (case cellAt m x1 y of
        None \<Rightarrow> Inl TypeError
      | Some c \<Rightarrow>
         (if inHorizontal c then Inr (x1 + 2, False)
          else if inVertical c then Inr (x1, True)
          else (case above G m x1 y of
             Inl e \<Rightarrow> Inl e
           | Inr True \<Rightarrow> Inr (x1 + 1, False)
           | Inr False \<Rightarrow>
              (case below G m x1 y of
                 Inl e \<Rightarrow> Inl e
               | Inr True \<Rightarrow> Inr (x1 + 1, False)
               | Inr False \<Rightarrow> scanLeft G m y (x1 - 1))))))"
  by pat_completeness auto
termination
  by (relation "measure (\<lambda>(G, m, y, x1). nat (x1 + 1))") auto

function scanRight :: "generator \<Rightarrow> matrix \<Rightarrow> int \<Rightarrow> int \<Rightarrow> error + int \<times> bool" where
  "scanRight G m y x2 =
    (if x2 \<ge> int (width (options G)) then Inr (int (width (options G)) - 1, False)
     else (case cellAt m x2 y of
        None \<Rightarrow> Inl TypeError
      | Some c \<Rightarrow>
         (if inHorizontal c then Inr (x2 - 2, False)
          else if inVertical c then Inr (x2, True)
          else (case above G m x2 y of
             Inl e \<Rightarrow> Inl e
           | Inr True \<Rightarrow> Inr (x2 - 1, False)
           | Inr False \<Rightarrow>
              (case below G m x2 y of
                 Inl e \<Rightarrow> Inl e
               | Inr True \<Rightarrow> Inr (x2 - 1, False)
               | Inr False \<Rightarrow> scanRight G m y (x2 + 1))))))"
  by pat_completeness auto
termination
  by (relation "measure (\<lambda>(G, m, y, x2). nat (int (width (options G)) - x2))") auto

function scanUp :: "generator \<Rightarrow> matrix \<Rightarrow> int \<Rightarrow> int \<Rightarrow> error + int \<times> bool" where
  "scanUp G m x y1 =
    (if y1 < 0 then Inr (0, False)
     else (case cellAt m x y1 of
        None \<Rightarrow> Inl TypeError
      | Some c \<Rightarrow>
         (if inVertical c then Inr (y1 + 2, False)
          else if inHorizontal c then Inr (y1, True)
          else (case leftOf G m x y1 of
             Inl e \<Rightarrow> Inl e
           | Inr True \<Rightarrow> Inr (y1 + 1, False)
           | Inr False \<Rightarrow>
              (case rightOf G m x y1 of
                 Inl e \<Rightarrow> Inl e
               | Inr True \<Rightarrow> Inr (y1 + 1, False)
               | Inr False \<Rightarrow> scanUp G m x (y1 - 1))))))"
  by pat_completeness auto
termination
  by (relation "measure (\<lambda>(G, m, x, y1). nat (y1 + 1))") auto

function scanDown :: "generator \<Rightarrow> matrix \<Rightarrow> int \<Rightarrow> int \<Rightarrow> error + int \<times> bool" where
  "scanDown G m x y2 =
    (if y2 \<ge> int (height (options G)) then Inr (int (height (options G)) - 1, False)
     else (case cellAt m x y2 of
        None \<Rightarrow> Inl TypeError
      | Some c \<Rightarrow>
         (if inVertical c then Inr (y2 - 2, False)
          else if inHorizontal c then Inr (y2, True)
          else (case leftOf G m x y2 of
             Inl e \<Rightarrow> Inl e
           | Inr True \<Rightarrow> Inr (y2 - 1, False)
           | Inr False \<Rightarrow>
              (case rightOf G m x y2 of
                 Inl e \<Rightarrow> Inl e
               | Inr True \<Rightarrow> Inr (y2 - 1, False)
               | Inr False \<Rightarrow> scanDown G m x (y2 + 1))))))"
  by pat_completeness auto
termination
  by (relation "measure (\<lambda>(G, m, x, y2). nat (int (height (options G)) - y2))") auto

declare scanLeft.simps [simp del] scanRight.simps [simp del] scanUp.simps [simp del]
  scanDown.simps [simp del]

text \<open>
  The points pushed for the horizontal run through the empty cell \<open>(x, y)\<close>: the run
  itself and, after a collision on the left, one more copy for each \<open>size\<close> from 2 to
  the length of the run.
\<close>

definition horizontalPoints :: "generator \<Rightarrow> matrix \<Rightarrow> int \<Rightarrow> int \<Rightarrow> error + point list" where
  "horizontalPoints G m x y =
    (case scanLeft G m y x of
       Inl e \<Rightarrow> Inl e
     | Inr (x1, x1Collision) \<Rightarrow>
        (case scanRight G m y x of
           Inl e \<Rightarrow> Inl e
         | Inr (x2, x2Collision) \<Rightarrow>
            Inr (if (x1Collision \<or> x2Collision) \<and> x1 < x2 then
                   \<lparr>p_x = x1, p_y = y, p_size = x2 + 1 - x1, p_horizontal = True\<rparr> #
                   (if x1Collision
                    then replicate (nat (x2 + 1 - x1) - 1)
                           \<lparr>p_x = x1, p_y = y, p_size = x2 + 1 - x1, p_horizontal = True\<rparr>
                    else [])
                 else [])))"

definition verticalPoints :: "generator \<Rightarrow> matrix \<Rightarrow> int \<Rightarrow> int \<Rightarrow> error + point list" where
  "verticalPoints G m x y =
    (case scanUp G m x y of
       Inl e \<Rightarrow> Inl e
     | Inr (y1, y1Collision) \<Rightarrow>
        (case scanDown G m x y of
           Inl e \<Rightarrow> Inl e
         | Inr (y2, y2Collision) \<Rightarrow>
            Inr (if (y1Collision \<or> y2Collision) \<and> y1 < y2 then
                   [\<lparr>p_x = x, p_y = y1, p_size = y2 + 1 - y1, p_horizontal = False\<rparr>]
                 else [])))"

text \<open>The two \<open>for\<close> loops over the cells, \<open>x\<close> outside and \<open>y\<close> inside.\<close>

definition allCells :: "generator \<Rightarrow> (int \<times> int) list" where
  "allCells G = concat (map (\<lambda>x. map (\<lambda>y. (int x, int y)) [0..<height (options G)])
                         [0..<width (options G)])"

fun collectPoints :: "generator \<Rightarrow> matrix \<Rightarrow> (int \<times> int) list \<Rightarrow> point list \<Rightarrow> error + point list" where
  "collectPoints G m [] points = Inr points"
| "collectPoints G m (xy # rest) points =
    (case cellAt m (fst xy) (snd xy) of
       None \<Rightarrow> Inl TypeError
     | Some c \<Rightarrow>
        (if letter c = emptySpace (options G) then
           (case horizontalPoints G m (fst xy) (snd xy) of
              Inl e \<Rightarrow> Inl e
            | Inr hs \<Rightarrow>
               (case verticalPoints G m (fst xy) (snd xy) of
                  Inl e \<Rightarrow> Inl e
                | Inr vs \<Rightarrow> collectPoints G m rest (points @ hs @ vs)))
         else collectPoints G m rest points))"

text \<open>\<open>Set.prototype.add\<close> on the set of constraints, kept in insertion order.\<close>

definition setAdd :: "string list \<Rightarrow> string \<Rightarrow> string list" where
  "setAdd xs v = (if v \<in> set xs then xs else xs @ [v])"

text \<open>The constraints of a point: the letters at its first and at its last cell.\<close>

definition pointMatches :: "generator \<Rightarrow> matrix \<Rightarrow> point \<Rightarrow> error + string list" where
  "pointMatches G m pt =
    (let ex = (if p_horizontal pt then p_x pt + p_size pt - 1 else p_x pt);
         ey = (if p_horizontal pt then p_y pt else p_y pt + p_size pt - 1)
     in case cellAt m (p_x pt) (p_y pt) of
          None \<Rightarrow> Inl TypeError
        | Some c0 \<Rightarrow>
           (case cellAt m ex ey of
              None \<Rightarrow> Inl TypeError
            | Some c1 \<Rightarrow>
               (let ms0 = (if letter c0 \<noteq> emptySpace (options G)
                           then setAdd [] (showInt 0 @ letter c0) else [])
                in Inr (if letter c1 \<noteq> emptySpace (options G)
                        then setAdd ms0 (showInt (p_size pt - 1) @ letter c1) else ms0))))"

text \<open>The words left for a point, \<open>None\<close> when \<open>lengths[point.size]\<close> is \<open>undefined\<close>.\<close>

definition narrow :: "compilation \<Rightarrow> nat list \<Rightarrow> string \<Rightarrow> nat list" where
  "narrow cpl ws match = (case letters cpl match of
       Some wordsMatch \<Rightarrow> filter (\<lambda>w. w \<in> set wordsMatch) ws
     | None \<Rightarrow> [])"

definition candidates :: "generator \<Rightarrow> matrix \<Rightarrow> point \<Rightarrow> string list \<Rightarrow> nat list option" where
  "candidates G m pt ms =
    (let cpl = compilation (options G) in
     case lengthsAt cpl (p_size pt) of
       None \<Rightarrow> None
     | Some ws \<Rightarrow> Some (filter (\<lambda>w. w \<notin> questions m)
          (foldl (narrow cpl) (filter (\<lambda>w. w \<notin> ignored G) ws) ms)))"

text \<open>
  Writing the chosen word of a point. \<open>mathRandom\<close> is the source behind the global
  \<open>Math.random\<close>, which this method calls instead of \<open>this.random\<close>.
\<close>

definition fillPoint :: "generator \<Rightarrow> source \<Rightarrow> matrix \<Rightarrow> point \<Rightarrow> nat list \<Rightarrow> nat \<Rightarrow> error + matrix" where
  "fillPoint G mathRandom m pt ws mpos =
    (let cpl = compilation (options G);
         idx = ws ! nat \<lfloor>rand mathRandom mpos * of_nat (length ws)\<rfloor>
     in if idx < length (words cpl) then
          (let word = words cpl ! idx in
           case writeWord m (p_horizontal pt) (p_x pt) (p_y pt) (\<lambda>i. [word ! i]) [0..<length word] of
             Inl e \<Rightarrow> Inl e
           | Inr m' \<Rightarrow> Inr (m'\<lparr>questions := insert idx (questions m'),
                  questionsData := questionsData m' @
                    [\<lparr>q_idx = idx, q_word = word, q_horizontal = p_horizontal pt,
                      q_x = p_x pt, q_y = p_y pt\<rparr>]\<rparr>))
        else Inl TypeError)"

text \<open>The loop over the sorted points; it stops at the first word written.\<close>

fun tryPoints :: "generator \<Rightarrow> source \<Rightarrow> matrix \<Rightarrow> point list \<Rightarrow> nat \<Rightarrow> error + (matrix \<times> nat) option" where
  "tryPoints G mathRandom m [] mpos = Inr None"
| "tryPoints G mathRandom m (pt # rest) mpos =
    (case pointMatches G m pt of
       Inl e \<Rightarrow> Inl e
     | Inr ms \<Rightarrow>
        (case candidates G m pt ms of
           None \<Rightarrow> tryPoints G mathRandom m rest mpos
         | Some ws \<Rightarrow>
            (if length ws > 0 then
               (case fillPoint G mathRandom m pt ws mpos of
                  Inl e \<Rightarrow> Inl e
                | Inr m' \<Rightarrow> Inr (Some (m', mpos + 1)))
             else tryPoints G mathRandom m rest mpos)))"

text \<open>One round of the outer \<open>while\<close> loop; \<open>None\<close> when no word was written.\<close>

definition fillPass :: "generator \<Rightarrow> source \<Rightarrow> matrix \<Rightarrow> nat \<Rightarrow> error + (matrix \<times> nat) option" where
  "fillPass G mathRandom m mpos =
    (case collectPoints G m (allCells G) [] of
       Inl e \<Rightarrow> Inl e
     | Inr points \<Rightarrow> tryPoints G mathRandom m (sortDesc p_size points) mpos)"

text \<open>
  The outer \<open>while (continueIteration)\<close> loop for one matrix, with a bound on the number
  of rounds; \<open>None\<close> says that the bound was hit.
\<close>

fun fillMatrix :: "nat \<Rightarrow> generator \<Rightarrow> source \<Rightarrow> matrix \<Rightarrow> nat \<Rightarrow> (error + matrix \<times> nat) option" where
  "fillMatrix 0 G mathRandom m mpos = None"
| "fillMatrix (Suc fuel) G mathRandom m mpos =
    (case fillPass G mathRandom m mpos of
       Inl e \<Rightarrow> Some (Inl e)
     | Inr None \<Rightarrow> Some (Inr (m, mpos))
     | Inr (Some (m', mpos')) \<Rightarrow> fillMatrix fuel G mathRandom m' mpos')"

fun fillAll :: "nat \<Rightarrow> generator \<Rightarrow> source \<Rightarrow> matrix list \<Rightarrow> nat \<Rightarrow> (error + matrix list \<times> nat) option" where
  "fillAll fuel G mathRandom [] mpos = Some (Inr ([], mpos))"
| "fillAll fuel G mathRandom (m # ms) mpos =
    (case fillMatrix fuel G mathRandom m mpos of
       None \<Rightarrow> None
     | Some (Inl e) \<Rightarrow> Some (Inl e)
     | Some (Inr (m', mpos')) \<Rightarrow>
        (case fillAll fuel G mathRandom ms mpos' of
           None \<Rightarrow> None
         | Some (Inl e) \<Rightarrow> Some (Inl e)
         | Some (Inr (ms', mpos'')) \<Rightarrow> Some (Inr (m' # ms', mpos''))))"

definition fillEmptySpaces :: "nat \<Rightarrow> generator \<Rightarrow> source \<Rightarrow> matrix list \<Rightarrow> nat \<Rightarrow>
    (error + matrix list \<times> nat) option" where
  "fillEmptySpaces fuel G mathRandom matrices mpos =
    (case fillAll fuel G mathRandom matrices mpos of
       None \<Rightarrow> None
     | Some (Inl e) \<Rightarrow> Some (Inl e)
     | Some (Inr (ms, mpos')) \<Rightarrow>
         Some (Inr (selectSolutions G ms (selectedSolutions (options G)), mpos')))"


section \<open>Notions used to state the properties\<close>

text \<open>
  \<open>m\<close> is the first matrix of the list with its hash: it stands at some index, and no
  matrix before that index has the same hash.
\<close>

definition firstOccurrence :: "matrix list \<Rightarrow> matrix \<Rightarrow> bool" where
  "firstOccurrence xs m = (\<exists>i < length xs. xs ! i = m \<and> (\<forall>j < i. hash (xs ! j) \<noteq> hash m))"

text \<open>A small generator used to run the functions on concrete inputs.\<close>

definition exampleOptions :: options where
  "exampleOptions =
    \<lparr>compilation = compile [[[''CAT'', ''feline''], [''DOG'', ''canine''], [''TAG'', ''label'']]],
     width = 5, height = 5, emptySpace = [CHR 0xB7], wordsPerIteration = 1,
     solutionsPerIteration = 2, selectedSolutions = 2, wordsOnBorder = 9 / 10,
     minimumLengthFactor = 1, finishAt = 600, scoreFunction = defaultScore\<rparr>"

definition exampleGenerator :: generator where
  "exampleGenerator =
    \<lparr>options = exampleOptions, ignored = {}, random = (\<lambda>n. of_nat ((n * 7) mod 10) / 10)\<rparr>"

text \<open>The same generator over the compilation of no dictionary at all.\<close>

definition emptyGenerator :: generator where
  "emptyGenerator = exampleGenerator\<lparr>options := exampleOptions\<lparr>compilation := compile []\<rparr>\<rparr>"


definition fillOptions :: options where
  "fillOptions =
    \<lparr>compilation = compile [[[''CAT'', ''ARC'', ''MAC'']]],
     width = 3, height = 4, emptySpace = [CHR 0xB7], wordsPerIteration = 1,
     solutionsPerIteration = 1, selectedSolutions = 1, wordsOnBorder = 9 / 10,
     minimumLengthFactor = 1, finishAt = 600, scoreFunction = defaultScore\<rparr>"

definition fillGenerator :: generator where
  "fillGenerator =
    \<lparr>options = fillOptions, ignored = {},
     random = (\<lambda>n. if n = 1 then 3 / 4 else if n = 2 then 1 / 2 else 0)\<rparr>"

text \<open>The matrices of a result, and the words placed in each of them.\<close>

definition resultMatrices :: "(error + matrix list \<times> nat) option \<Rightarrow> matrix list" where
  "resultMatrices r = (case r of Some (Inr (ms, p)) \<Rightarrow> ms | _ \<Rightarrow> [])"

definition placedWords :: "(error + matrix list \<times> nat) option \<Rightarrow> string list list" where
  "placedWords r = map (\<lambda>m. map q_word (questionsData m)) (resultMatrices r)"

text \<open>
  The ids in the length bucket for \<open>len\<close> and in the letter index at \<open>(i, c)\<close>; a
  missing entry holds no id.
\<close>

definition bucket :: "compilation \<Rightarrow> nat \<Rightarrow> nat set" where
  "bucket cpl len = (case lengthsAt cpl (int len) of None \<Rightarrow> {} | Some ids \<Rightarrow> set ids)"

definition letterIndex :: "compilation \<Rightarrow> nat \<Rightarrow> char \<Rightarrow> nat set" where
  "letterIndex cpl i c = (case letters cpl (letterKey i [c]) of None \<Rightarrow> {} | Some ids \<Rightarrow> set ids)"

definition idsAt :: "nat list list \<Rightarrow> nat \<Rightarrow> nat set" where
  "idsAt ls len = (if len < length ls then set (ls ! len) else {})"

definition idsOf :: "(string \<rightharpoonup> nat list) \<Rightarrow> string \<Rightarrow> nat set" where
  "idsOf lt k = (case lt k of None \<Rightarrow> {} | Some ids \<Rightarrow> set ids)"

text \<open>Every id that stands in some length bucket.\<close>

definition bucketIds :: "compilation \<Rightarrow> nat set" where
  "bucketIds cpl = \<Union> (set (map set (lengths cpl)))"

text \<open>
  The cells of a placement: \<open>covers q cx cy\<close> says that the word of \<open>q\<close> runs over the
  cell, \<open>charAtCell\<close> is the character of the word there, and \<open>inside\<close> says that the
  whole word lies in the grid.
\<close>

definition covers :: "question \<Rightarrow> int \<Rightarrow> int \<Rightarrow> bool" where
  "covers q cx cy =
    (if q_horizontal q
     then cy = q_y q \<and> q_x q \<le> cx \<and> cx < q_x q + int (length (q_word q))
     else cx = q_x q \<and> q_y q \<le> cy \<and> cy < q_y q + int (length (q_word q)))"

definition charAtCell :: "question \<Rightarrow> int \<Rightarrow> int \<Rightarrow> char" where
  "charAtCell q cx cy = q_word q ! nat (if q_horizontal q then cx - q_x q else cy - q_y q)"

definition inside :: "generator \<Rightarrow> question \<Rightarrow> bool" where
  "inside G q =
    (0 \<le> q_x q \<and> 0 \<le> q_y q \<and>
     (if q_horizontal q
      then q_x q + int (length (q_word q)) \<le> int (width (options G)) \<and>
           q_y q < int (height (options G))
      else q_y q + int (length (q_word q)) \<le> int (height (options G)) \<and>
           q_x q < int (width (options G))))"

text \<open>The entry holds the word of its id, and that word stands in a length bucket.\<close>

definition placedFrom :: "compilation \<Rightarrow> question \<Rightarrow> bool" where
  "placedFrom cpl q =
    (q_idx q < length (words cpl) \<and> q_word q = words cpl ! q_idx q \<and>
     q_idx q \<in> bucket cpl (length (q_word q)))"

text \<open>The empty marker is not a string of one character of the word pattern.\<close>

definition markerApart :: "options \<Rightarrow> bool" where
  "markerApart opts = (\<forall>c. inClass c \<longrightarrow> emptySpace opts \<noteq> [c])"

text \<open>
  The matrices a generator can hold: the new matrix of \<open>generate\<close>, and every matrix
  returned by \<open>iterate\<close> or by \<open>fillEmptySpaces\<close> on matrices it can hold, for any
  random numbers.
\<close>

inductive reachable :: "generator \<Rightarrow> matrix \<Rightarrow> bool" for G :: generator where
  generated: "reachable G (generate G)"
| iterated: "\<lbrakk>\<forall>m \<in> set ms. reachable G m; iterate fuel G ms pos = Some (Inr (out, pos'));
     m' \<in> set out\<rbrakk> \<Longrightarrow> reachable G m'"
| filled: "\<lbrakk>\<forall>m \<in> set ms. reachable G m;
     fillEmptySpaces fuel G mathRandom ms mpos = Some (Inr (out, mpos')); m' \<in> set out\<rbrakk>
     \<Longrightarrow> reachable G m'"

text \<open>
  The coherence of a matrix with its placement list: the grid has the size of the
  options, every entry holds a bucket word and lies inside the grid, the two flags of a
  cell say which orientations cover it, a cell is non-empty exactly when a flag is set,
  a covered cell holds the character of the covering word, and two entries of the same
  orientation share no cell.
\<close>

definition coherent :: "generator \<Rightarrow> matrix \<Rightarrow> bool" where
  "coherent G m =
    (length (rows m) = height (options G) \<and>
     (\<forall>row \<in> set (rows m). length row = width (options G)) \<and>
     (\<forall>q \<in> set (questionsData m). placedFrom (compilation (options G)) q \<and> inside G q) \<and>
     (\<forall>cx cy c. cellAt m cx cy = Some c \<longrightarrow>
        (inHorizontal c \<longleftrightarrow> (\<exists>q \<in> set (questionsData m). q_horizontal q \<and> covers q cx cy)) \<and>
        (inVertical c \<longleftrightarrow> (\<exists>q \<in> set (questionsData m). \<not> q_horizontal q \<and> covers q cx cy)) \<and>
        (letter c \<noteq> emptySpace (options G) \<longleftrightarrow> inHorizontal c \<or> inVertical c) \<and>
        (\<forall>q \<in> set (questionsData m). covers q cx cy \<longrightarrow> letter c = [charAtCell q cx cy])) \<and>
     (\<forall>i < length (questionsData m). \<forall>j < length (questionsData m).
        i \<noteq> j \<and> q_horizontal (questionsData m ! i) = q_horizontal (questionsData m ! j) \<longrightarrow>
        \<not> (\<exists>cx cy. covers (questionsData m ! i) cx cy \<and> covers (questionsData m ! j) cx cy)))"

text \<open>
  A point whose run can take a word: at least two cells, all of them in the grid and
  free of a word of the orientation of the point, and only the first and the last may
  belong to a word of the other orientation.
\<close>

definition validPoint :: "matrix \<Rightarrow> point \<Rightarrow> bool" where
  "validPoint m pt =
    (2 \<le> p_size pt \<and>
     (\<forall>i < nat (p_size pt). \<exists>c.
        cellAt m (spanX (p_horizontal pt) (p_x pt) i) (spanY (p_horizontal pt) (p_y pt) i) = Some c \<and>
        \<not> flag (p_horizontal pt) c \<and>
        (flag (\<not> p_horizontal pt) c \<longrightarrow> i = 0 \<or> int i = p_size pt - 1)))"

text \<open>
  The part of the coherence that needs no assumption on the empty marker: the size of
  the grid and the entries of the placement list.
\<close>

definition bounded :: "generator \<Rightarrow> matrix \<Rightarrow> bool" where
  "bounded G m =
    (length (rows m) = height (options G) \<and>
     (\<forall>row \<in> set (rows m). length row = width (options G)) \<and>
     (\<forall>q \<in> set (questionsData m). placedFrom (compilation (options G)) q \<and> inside G q))"

text \<open>
  A generator whose empty marker is the letter \<open>A\<close>, with border mode off, and the
  matrix that one \<open>iterate\<close> with two words returns for it. The matrix that \<open>iterate\<close>
  returns for \<open>fillGenerator\<close>, and the one that \<open>fillEmptySpaces\<close> makes of it when
  \<open>Math.random\<close> returns 0.
\<close>

definition markerGenerator :: generator where
  "markerGenerator =
    \<lparr>options =
       \<lparr>compilation = compile [[[''CAT'', ''DOG'']]],
        width = 5, height = 5, emptySpace = ''A'', wordsPerIteration = 2,
        solutionsPerIteration = 1, selectedSolutions = 1, wordsOnBorder = 0,
        minimumLengthFactor = 1, finishAt = 600, scoreFunction = defaultScore\<rparr>,
     ignored = {},
     random = (\<lambda>n. if n < 10
                   then [0, 3 / 4, 1 / 2, 0, 0, 1 / 2, 3 / 4, 1 / 2, 1 / 4, 1 / 2] ! n else 0)\<rparr>"

definition clashMatrix :: matrix where
  "clashMatrix = hd (resultMatrices (iterate 1 markerGenerator [generate markerGenerator] 0))"

definition catMatrix :: matrix where
  "catMatrix = hd (resultMatrices (iterate 1 fillGenerator [generate fillGenerator] 0))"

definition crossMatrix :: matrix where
  "crossMatrix = hd (resultMatrices (fillEmptySpaces 3 fillGenerator (\<lambda>n. 0) [catMatrix] 0))"

text \<open>
  The generator \<open>fillGenerator\<close> with the score function \<open>crosses / singles\<close>, and a
  batch of three grids: \<open>CAT\<close> alone, no word at all, and \<open>CAT\<close> crossed by \<open>ARC\<close>.
\<close>

definition ratioGenerator :: generator where
  "ratioGenerator = fillGenerator\<lparr>options := fillOptions
     \<lparr>scoreFunction := (\<lambda>filled crosses singles. numDiv (of_int crosses) (of_int singles))\<rparr>\<rparr>"

definition ratioBatch :: "matrix list" where
  "ratioBatch = [catMatrix, generate fillGenerator, crossMatrix]"

section \<open>Selection: size, distinct hashes, order\<close>

lemma set_insertDesc: "set (insertDesc f a xs) = insert a (set xs)"
  by (induction xs) auto

lemma sortDesc_Nil: "sortDesc f [] = []"
  by (simp add: sortDesc_def)

lemma sortDesc_snoc: "sortDesc f (xs @ [a]) = insertDesc f a (sortDesc f xs)"
  by (simp add: sortDesc_def)

lemma set_sortDesc: "set (sortDesc f xs) = set xs"
  by (induction xs rule: rev_induct) (auto simp: sortDesc_Nil sortDesc_snoc set_insertDesc)

lemma set_insertBack: "set (insertBack c a xs) = insert a (set xs)"
  by (induction xs) auto

lemma distinct_insertBack:
  "distinct (map g (insertBack c a xs)) = (g a \<notin> g ` set xs \<and> distinct (map g xs))"
  by (induction xs) (auto simp: set_insertBack)

lemma set_sortWith: "set (sortWith c xs) = set xs"
  unfolding sortWith_def by (induction xs rule: rev_induct) (auto simp: set_insertBack)

lemma distinct_sortWith: "distinct (map g (sortWith c xs)) = distinct (map g xs)"
proof -
  have "distinct (map g (foldl (\<lambda>acc a. insertBack c a acc) [] xs)) = distinct (map g xs) \<and>
        set (foldl (\<lambda>acc a. insertBack c a acc) [] xs) = set xs"
    by (induction xs rule: rev_induct) (auto simp: distinct_insertBack set_insertBack)
  then show ?thesis
    by (simp add: sortWith_def rev_map[symmetric])
qed

lemma numGeq_trans: "numGeq a b \<Longrightarrow> numGeq b c \<Longrightarrow> numGeq a c"
  by (cases a; cases b; cases c) auto

lemma numSub_positive:
  "a \<noteq> NaN \<Longrightarrow> b \<noteq> NaN \<Longrightarrow> numPositive (numSub a b) \<Longrightarrow> numGeq a b"
  by (cases a; cases b) auto

lemma numSub_not_positive:
  "a \<noteq> NaN \<Longrightarrow> b \<noteq> NaN \<Longrightarrow> \<not> numPositive (numSub a b) \<Longrightarrow> numGeq b a"
  by (cases a; cases b) auto

lemma sorted_insertBack:
  assumes "k a \<noteq> NaN" "\<forall>x \<in> set rs. k x \<noteq> NaN"
    and "sorted_wrt (\<lambda>x y. numGeq (k y) (k x)) rs"
  shows "sorted_wrt (\<lambda>x y. numGeq (k y) (k x)) (insertBack (\<lambda>a b. numSub (k b) (k a)) a rs)"
  using assms
proof (induction rs)
  case Nil
  show ?case by simp
next
  case (Cons b rs)
  show ?case
  proof (cases "numPositive (numSub (k a) (k b))")
    case True
    with Cons.prems have "numGeq (k a) (k b)" by (simp add: numSub_positive)
    with True Cons show ?thesis by (auto simp: set_insertBack)
  next
    case False
    with Cons.prems have ba: "numGeq (k b) (k a)" by (simp add: numSub_not_positive)
    have "numGeq (k y) (k a)" if "y \<in> set rs" for y
      using Cons.prems(3) that ba numGeq_trans by auto
    with False ba Cons.prems show ?thesis by auto
  qed
qed

lemma sorted_sortWith:
  assumes "\<forall>x \<in> set xs. k x \<noteq> NaN"
  shows "sorted_wrt (\<lambda>x y. numGeq (k x) (k y)) (sortWith (\<lambda>a b. numSub (k b) (k a)) xs)"
proof -
  have "sorted_wrt (\<lambda>x y. numGeq (k y) (k x)) (foldl (\<lambda>acc a. insertBack (\<lambda>a b. numSub (k b) (k a)) a acc) [] xs)
      \<and> set (foldl (\<lambda>acc a. insertBack (\<lambda>a b. numSub (k b) (k a)) a acc) [] xs) = set xs"
    using assms
    by (induction xs rule: rev_induct) (auto simp: sorted_insertBack set_insertBack)
  then show ?thesis
    by (simp add: sortWith_def sorted_wrt_rev)
qed

lemma defaultScore_finite: "defaultScore f c s \<noteq> NaN"
proof -
  have "1 + of_int s * 4 \<noteq> (0 :: rat)"
  proof
    assume "1 + of_int s * 4 = (0 :: rat)"
    then have "(of_int (1 + s * 4) :: rat) = of_int 0" by simp
    then have "1 + s * 4 = 0" by (simp only: of_int_eq_iff)
    then show False by presburger
  qed
  then show ?thesis by (simp add: defaultScore_def numDiv_def)
qed

lemma addUnique_fold:
  "fst (foldl addUnique ([], []) xs) = map hash (snd (foldl addUnique ([], []) xs)) \<and>
   distinct (fst (foldl addUnique ([], []) xs)) \<and>
   set (fst (foldl addUnique ([], []) xs)) = hash ` set xs \<and>
   (\<forall>m \<in> set (snd (foldl addUnique ([], []) xs)). firstOccurrence xs m)"
proof (induction xs rule: rev_induct)
  case Nil
  show ?case by simp
next
  case (snoc x xs)
  obtain hs us where st: "foldl addUnique ([], []) xs = (hs, us)"
    by (cases "foldl addUnique ([], []) xs")
  from snoc st have ih: "hs = map hash us" "distinct hs" "set hs = hash ` set xs"
    "\<forall>m \<in> set us. firstOccurrence xs m" by auto
  have mono: "firstOccurrence (xs @ [x]) m" if "firstOccurrence xs m" for m
  proof -
    from that obtain i where i: "i < length xs" "xs ! i = m" "\<forall>j < i. hash (xs ! j) \<noteq> hash m"
      by (auto simp: firstOccurrence_def)
    then have "i < length (xs @ [x]) \<and> (xs @ [x]) ! i = m \<and>
        (\<forall>j < i. hash ((xs @ [x]) ! j) \<noteq> hash m)"
      by (auto simp: nth_append)
    then show ?thesis unfolding firstOccurrence_def by blast
  qed
  show ?case
  proof (cases "hash x \<in> set hs")
    case True
    then have "addUnique (foldl addUnique ([], []) xs) x = (hs, us)"
      by (simp add: st addUnique_def)
    with ih True mono show ?thesis by auto
  next
    case False
    then have eq: "addUnique (foldl addUnique ([], []) xs) x = (hs @ [hash x], us @ [x])"
      by (simp add: st addUnique_def)
    have "\<forall>j < length xs. hash (xs ! j) \<noteq> hash x"
      using False ih(3) by (metis image_eqI nth_mem)
    then have "firstOccurrence (xs @ [x]) x"
      unfolding firstOccurrence_def by (intro exI[of _ "length xs"]) (auto simp: nth_append)
    with ih False mono show ?thesis by (auto simp: eq)
  qed
qed

lemma addUnique_subset: "set (snd (foldl addUnique ([], []) xs)) \<subseteq> set xs"
  using addUnique_fold[of xs] by (auto simp: firstOccurrence_def)

text \<open>
  Claim C4, as stated: for every batch the scores of the result do not increase. A score
  function may return \<open>NaN\<close>. With the score \<open>crosses / singles\<close> the three grids of
  \<open>ratioBatch\<close> score \<open>0 / 1 = 0\<close> (\<open>CAT\<close> alone: no crossing, one isolated word),
  \<open>0 / 0 = NaN\<close> (no word) and \<open>2 / 0 = Infinity\<close> (\<open>CAT\<close> and \<open>ARC\<close> cross each other).
  Every difference with \<open>NaN\<close> is \<open>NaN\<close>, which the sort reads as \<open>0\<close>: the grids keep
  their order, and the scores of the result go up from \<open>0\<close> to \<open>Infinity\<close>.
\<close>

theorem selectSolutions_nan_counterexample:
  "map intersections (selectSolutions ratioGenerator ratioBatch 3) = [0, 0, 2] \<and>
   map isolatedWords (selectSolutions ratioGenerator ratioBatch 3) = [1, 0, 0] \<and>
   map score (selectSolutions ratioGenerator ratioBatch 3) = [Fin 0, NaN, Infinity] \<and>
   \<not> sorted_wrt numGeq (map score (selectSolutions ratioGenerator ratioBatch 3))"
proof -
  have e: "map (\<lambda>m. (intersections m, isolatedWords m, score m))
      (selectSolutions ratioGenerator ratioBatch 3) = [(0, 1, Fin 0), (0, 0, NaN), (2, 0, Infinity)]"
    by code_simp
  have i: "map intersections (selectSolutions ratioGenerator ratioBatch 3) = [0, 0, 2]"
    using arg_cong[OF e, of "map fst"] by (simp add: comp_def)
  have j: "map isolatedWords (selectSolutions ratioGenerator ratioBatch 3) = [1, 0, 0]"
    using arg_cong[OF e, of "map (\<lambda>t. fst (snd t))"] by (simp add: comp_def)
  have s: "map score (selectSolutions ratioGenerator ratioBatch 3) = [Fin 0, NaN, Infinity]"
    using arg_cong[OF e, of "map (\<lambda>t. snd (snd t))"] by (simp add: comp_def)
  show ?thesis unfolding i j s by simp
qed

text \<open>
  Claim C4, amended. For every batch of matrices and every requested count \<open>n\<close>,
  \<open>#selectSolutions\<close> returns at most \<open>n\<close> matrices, their hashes are pairwise distinct,
  and every returned matrix is the first one of the scored batch, in input order, that
  has its hash; when no matrix of the batch scores \<open>NaN\<close> (the default score function
  never does), the scores do not increase along the result.
\<close>

theorem selectSolutions_properties:
  "length (selectSolutions G solutions n) \<le> n \<and>
   distinct (map hash (selectSolutions G solutions n)) \<and>
   (\<forall>m \<in> set (selectSolutions G solutions n). firstOccurrence (map (annotate G) solutions) m) \<and>
   ((\<forall>m \<in> set solutions. score (annotate G m) \<noteq> NaN) \<longrightarrow>
      sorted_wrt numGeq (map score (selectSolutions G solutions n)))"
proof -
  let ?ann = "map (annotate G) solutions"
  let ?us = "snd (foldl addUnique ([], []) ?ann)"
  let ?c = "\<lambda>a b. numSub (score b) (score a)"
  have sel: "selectSolutions G solutions n = take (min (length (sortWith ?c ?us)) n) (sortWith ?c ?us)"
    by (simp add: selectSolutions_def Let_def)
  have d: "distinct (map hash ?us)" using addUnique_fold[of ?ann] by metis
  have f: "\<forall>m \<in> set ?us. firstOccurrence ?ann m" using addUnique_fold[of ?ann] by blast
  have 1: "length (selectSolutions G solutions n) \<le> n" by (simp add: sel)
  have 2: "distinct (map hash (selectSolutions G solutions n))"
    unfolding sel using d by (simp add: distinct_sortWith take_map[symmetric] distinct_take)
  have 3: "\<forall>m \<in> set (selectSolutions G solutions n). firstOccurrence ?ann m"
    unfolding sel using f by (metis in_set_takeD set_sortWith)
  have 4: "sorted_wrt numGeq (map score (selectSolutions G solutions n))"
    if "\<forall>m \<in> set solutions. score (annotate G m) \<noteq> NaN"
  proof -
    from that addUnique_subset[of ?ann] have "\<forall>x \<in> set ?us. score x \<noteq> NaN" by auto
    then have "sorted_wrt (\<lambda>x y. numGeq (score x) (score y)) (sortWith ?c ?us)"
      by (rule sorted_sortWith)
    then have "sorted_wrt (\<lambda>x y. numGeq (score x) (score y)) (selectSolutions G solutions n)"
      unfolding sel by (metis append_take_drop_id sorted_wrt_append)
    then show ?thesis by (simp add: sorted_wrt_map)
  qed
  from 1 2 3 4 show ?thesis by blast
qed


theorem selectSolutions_properties_witness:
  "score (annotate fillGenerator (generate fillGenerator)) \<noteq> NaN \<and>
   score (annotate fillGenerator catMatrix) \<noteq> NaN \<and>
   map score (selectSolutions fillGenerator [generate fillGenerator, catMatrix] 2)
     = [Fin (12 / 5), Fin 0] \<and>
   length (selectSolutions fillGenerator [generate fillGenerator, catMatrix] 2) \<le> 2 \<and>
   distinct (map hash (selectSolutions fillGenerator [generate fillGenerator, catMatrix] 2)) \<and>
   sorted_wrt numGeq (map score (selectSolutions fillGenerator [generate fillGenerator, catMatrix] 2))"
proof -
  have s: "map score (selectSolutions fillGenerator [generate fillGenerator, catMatrix] 2)
     = [Fin (12 / 5), Fin 0]"
    by code_simp
  have h: "score (annotate fillGenerator m) \<noteq> NaN" for m
    by (simp add: annotate_def Let_def fillGenerator_def fillOptions_def defaultScore_finite
        split: prod.splits)
  from h have "\<forall>m \<in> set [generate fillGenerator, catMatrix]. score (annotate fillGenerator m) \<noteq> NaN"
    by simp
  with selectSolutions_properties[of fillGenerator "[generate fillGenerator, catMatrix]" 2] h s
  show ?thesis by simp
qed

section \<open>Compilation: the scenario of the two entries\<close>

text \<open>
  Claim C5, as stated: compiling the dictionary of the entries \<open>CAT, feline\<close> and
  \<open>DOG, canine\<close> gives the words \<open>CAT, DOG\<close>, the length bucket \<open>{0, 1}\<close> for 3, and the
  letter index \<open>{0}\<close> at \<open>(0, C)\<close> and \<open>{1}\<close> at \<open>(0, D)\<close>. The code does not: the
  descriptions have no white space, so they are words too.
\<close>

theorem compile_scenario_counterexample:
  "\<not> (words (compile [[[''CAT'', ''feline''], [''DOG'', ''canine'']]]) = [''CAT'', ''DOG''] \<and>
      set (lengths (compile [[[''CAT'', ''feline''], [''DOG'', ''canine'']]]) ! 3) = {0, 1} \<and>
      letters (compile [[[''CAT'', ''feline''], [''DOG'', ''canine'']]]) (letterKey 0 ''C'')
        = Some [0] \<and>
      letters (compile [[[''CAT'', ''feline''], [''DOG'', ''canine'']]]) (letterKey 0 ''D'')
        = Some [1])"
  by code_simp

text \<open>
  Claim C5, amended: the words are \<open>CAT, feline, DOG, canine\<close>, the length bucket for 3
  holds the ids 0 and 2, the letter index holds 0 at \<open>(0, C)\<close> and 2 at \<open>(0, D)\<close>.
\<close>

theorem compile_scenario:
  "words (compile [[[''CAT'', ''feline''], [''DOG'', ''canine'']]])
     = [''CAT'', ''feline'', ''DOG'', ''canine''] \<and>
   lengthsAt (compile [[[''CAT'', ''feline''], [''DOG'', ''canine'']]]) 3 = Some [0, 2] \<and>
   letters (compile [[[''CAT'', ''feline''], [''DOG'', ''canine'']]]) (letterKey 0 ''C'')
     = Some [0] \<and>
   letters (compile [[[''CAT'', ''feline''], [''DOG'', ''canine'']]]) (letterKey 0 ''D'')
     = Some [2]"
  by code_simp


section \<open>The start position of a candidate\<close>

lemma floor_twice: "0 \<le> (r::rat) \<Longrightarrow> r < 1 \<Longrightarrow> \<lfloor>r * 2\<rfloor> = 0 \<or> \<lfloor>r * 2\<rfloor> = 1"
proof -
  assume a: "0 \<le> r" "r < 1"
  then have "0 \<le> \<lfloor>r * 2\<rfloor>" by simp
  moreover from a have "\<lfloor>r * 2\<rfloor> < 2" by (simp add: floor_less_iff)
  ultimately show ?thesis by linarith
qed

lemma floor_scaled:
  "0 \<le> (r::rat) \<Longrightarrow> r < 1 \<Longrightarrow> 0 < n \<Longrightarrow> 0 \<le> \<lfloor>r * of_int n\<rfloor> \<and> \<lfloor>r * of_int n\<rfloor> < n"
proof -
  assume a: "0 \<le> r" "r < 1" "0 < n"
  then have "0 \<le> r * of_int n" by simp
  then have 1: "0 \<le> \<lfloor>r * of_int n\<rfloor>" by simp
  from a have "r * of_int n < 1 * of_int n" by (intro mult_strict_right_mono) auto
  then have "\<lfloor>r * of_int n\<rfloor> < n" by (simp add: floor_less_iff)
  with 1 show ?thesis by simp
qed

lemma rand_range: "0 \<le> rand src n \<and> rand src n < 1"
  by (simp add: rand_def frac_lt_1)

lemma free_coordinate_reachable:
  assumes "0 \<le> k" "k < int n"
  shows "\<exists>r::rat. 0 \<le> r \<and> r < 1 \<and> \<lfloor>r * of_nat n\<rfloor> = k"
proof -
  from assms have n: "0 < n" by auto
  let ?r = "of_int k / of_nat n :: rat"
  have "0 \<le> ?r" using assms by simp
  moreover have "?r < 1" using assms n by simp
  moreover have "?r * of_nat n = of_int k" using n by simp
  then have "\<lfloor>?r * of_nat n\<rfloor> = k" by simp
  ultimately show ?thesis by blast
qed

lemma example_dims:
  "width (options exampleGenerator) = 5" "height (options exampleGenerator) = 5"
  "wordsOnBorder (options exampleGenerator) = 9 / 10"
  by (simp_all add: exampleGenerator_def exampleOptions_def)

lemma generate_flags: "borde (generate G) = False" "finish (generate G) = False"
  by (simp_all add: generate_def Let_def)

lemma floor_examples:
  "\<lfloor>(5::rat) / 2\<rfloor> = 2" "\<lfloor>(3::rat) / 5\<rfloor> = 0" "\<lfloor>(3::rat) / 2\<rfloor> = 1"
  by code_simp+

text \<open>
  Claim C1, as stated: a matrix that has not reached the border phase gets an
  unconstrained start, and once the border flag is set one coordinate is pinned to an
  edge. The code does the reverse. With border mode on and the flag \<open>borde\<close> set, a
  vertical word in a grid of width 5 starts in column 2 for the random number 1/2; with
  the flag not set, the random number 3/10 gives column 0 and not the column 1 that an
  unconstrained draw over the width gives.
\<close>

theorem startPosition_counterexample:
  "wordsOnBorder (options exampleGenerator) \<noteq> 0 \<and>
   borde ((generate exampleGenerator)\<lparr>borde := True\<rparr>) \<and>
   fst (startPosition exampleGenerator ((generate exampleGenerator)\<lparr>borde := True\<rparr>)
          False 3 (1 / 2) 0)
     \<notin> {0, int (width (options exampleGenerator)) - 1} \<and>
   \<not> borde (generate exampleGenerator) \<and>
   fst (startPosition exampleGenerator (generate exampleGenerator) False 3 (3 / 10) 0) = 0 \<and>
   \<lfloor>(3 / 10 :: rat) * of_nat (width (options exampleGenerator))\<rfloor> = 1"
  by (simp add: startPosition_def example_dims generate_flags Let_def floor_examples)

text \<open>
  Claim C1, amended. For random numbers in \<open>[0, 1)\<close>: while border mode is on
  (\<open>wordsOnBorder\<close> is not 0) and the flag \<open>borde\<close> of the matrix is not set, one
  coordinate of the start is pinned to an edge, \<open>x\<close> to 0 or \<open>width - 1\<close> for a vertical
  word and \<open>y\<close> to 0 or \<open>height - 1\<close> for a horizontal word. Once the flag is set, or
  with border mode off, that coordinate is the floor of the random number times the
  width (the height), and every column (row) of the grid is the start for some random
  number. In both cases the coordinate along the word is the floor of the random number
  times \<open>width - length\<close> (\<open>height - length\<close>).
\<close>

theorem startPosition_by_border_flag:
  assumes "0 \<le> rx" "rx < 1" "0 \<le> ry" "ry < 1"
  shows "(wordsOnBorder (options G) \<noteq> 0 \<and> \<not> borde m \<longrightarrow>
           (if hz then snd (startPosition G m hz len rx ry) \<in> {0, int (height (options G)) - 1}
            else fst (startPosition G m hz len rx ry) \<in> {0, int (width (options G)) - 1})) \<and>
         (wordsOnBorder (options G) = 0 \<or> borde m \<longrightarrow>
           (if hz then snd (startPosition G m hz len rx ry) = \<lfloor>ry * of_nat (height (options G))\<rfloor>
            else fst (startPosition G m hz len rx ry) = \<lfloor>rx * of_nat (width (options G))\<rfloor>) \<and>
           (\<forall>k. 0 \<le> k \<and> k < int (height (options G)) \<longrightarrow>
              (\<exists>r. 0 \<le> r \<and> r < 1 \<and> snd (startPosition G m True len rx r) = k)) \<and>
           (\<forall>k. 0 \<le> k \<and> k < int (width (options G)) \<longrightarrow>
              (\<exists>r. 0 \<le> r \<and> r < 1 \<and> fst (startPosition G m False len r ry) = k))) \<and>
         (if hz
          then fst (startPosition G m hz len rx ry) = \<lfloor>rx * of_int (int (width (options G)) - len)\<rfloor>
          else snd (startPosition G m hz len rx ry) = \<lfloor>ry * of_int (int (height (options G)) - len)\<rfloor>)"
proof -
  have 1: "wordsOnBorder (options G) \<noteq> 0 \<and> \<not> borde m \<longrightarrow>
           (if hz then snd (startPosition G m hz len rx ry) \<in> {0, int (height (options G)) - 1}
            else fst (startPosition G m hz len rx ry) \<in> {0, int (width (options G)) - 1})"
    using floor_twice[OF assms(1,2)] floor_twice[OF assms(3,4)]
    by (auto simp: startPosition_def Let_def)
  have 2: "wordsOnBorder (options G) = 0 \<or> borde m \<longrightarrow>
           (if hz then snd (startPosition G m hz len rx ry) = \<lfloor>ry * of_nat (height (options G))\<rfloor>
            else fst (startPosition G m hz len rx ry) = \<lfloor>rx * of_nat (width (options G))\<rfloor>)"
    by (auto simp: startPosition_def Let_def)
  have 3: "wordsOnBorder (options G) = 0 \<or> borde m \<longrightarrow>
           (\<forall>k. 0 \<le> k \<and> k < int (height (options G)) \<longrightarrow>
              (\<exists>r. 0 \<le> r \<and> r < 1 \<and> snd (startPosition G m True len rx r) = k))"
    using free_coordinate_reachable[of _ "height (options G)"]
    by (auto simp: startPosition_def Let_def)
  have 4: "wordsOnBorder (options G) = 0 \<or> borde m \<longrightarrow>
           (\<forall>k. 0 \<le> k \<and> k < int (width (options G)) \<longrightarrow>
              (\<exists>r. 0 \<le> r \<and> r < 1 \<and> fst (startPosition G m False len r ry) = k))"
    using free_coordinate_reachable[of _ "width (options G)"]
    by (auto simp: startPosition_def Let_def)
  have 5: "if hz
          then fst (startPosition G m hz len rx ry) = \<lfloor>rx * of_int (int (width (options G)) - len)\<rfloor>
          else snd (startPosition G m hz len rx ry) = \<lfloor>ry * of_int (int (height (options G)) - len)\<rfloor>"
    by (auto simp: startPosition_def Let_def)
  from 1 2 3 4 5 show ?thesis by blast
qed

theorem startPosition_by_border_flag_witness:
  "fst (startPosition exampleGenerator (generate exampleGenerator) False 3 (1 / 2) (1 / 4))
     \<in> {0, int (width (options exampleGenerator)) - 1} \<and>
   fst (startPosition exampleGenerator ((generate exampleGenerator)\<lparr>borde := True\<rparr>)
          False 3 (1 / 2) (1 / 4)) = 2"
proof -
  have a: "wordsOnBorder (options exampleGenerator) \<noteq> 0 \<and> \<not> borde (generate exampleGenerator)"
    by (simp add: example_dims generate_flags)
  have b: "wordsOnBorder (options exampleGenerator) = 0 \<or>
      borde ((generate exampleGenerator)\<lparr>borde := True\<rparr>)"
    by simp
  have w: "\<lfloor>(1 / 2 :: rat) * of_nat (width (options exampleGenerator))\<rfloor> = 2"
    by (simp add: example_dims floor_examples)
  have r: "(0::rat) \<le> 1 / 2" "(1 / 2 :: rat) < 1" "(0::rat) \<le> 1 / 4" "(1 / 4 :: rat) < 1"
    by simp_all
  from startPosition_by_border_flag[OF r, of exampleGenerator "generate exampleGenerator" False 3] a
  have 1: "fst (startPosition exampleGenerator (generate exampleGenerator) False 3 (1 / 2) (1 / 4))
     \<in> {0, int (width (options exampleGenerator)) - 1}" by simp
  from startPosition_by_border_flag[OF r, of exampleGenerator
      "(generate exampleGenerator)\<lparr>borde := True\<rparr>" False 3] b w
  have 2: "fst (startPosition exampleGenerator ((generate exampleGenerator)\<lparr>borde := True\<rparr>)
      False 3 (1 / 2) (1 / 4)) = 2"
    by simp
  from 1 2 show ?thesis by simp
qed

section \<open>A compilation without length buckets\<close>

lemma attempt_no_bucket:
  "lengths (compilation (options G)) = [] \<Longrightarrow> attempt G m pos = Inl TypeError"
  by (simp add: attempt_def Let_def lengthsAt_def)

lemma compile_Nil:
  "compile [] = \<lparr>words = [], letters = Map.empty, lengths = [], phrases = [], cquestions = []\<rparr>"
  by (simp add: compile_def)

lemma iterate_no_bucket:
  assumes "lengths (compilation (options G)) = []" "finishAt (options G) \<noteq> 1"
    "wordsPerIteration (options G) = Suc k" "solutionsPerIteration (options G) = Suc j"
  shows "iterate (Suc fuel) G [generate G] pos = Some (Inl TypeError)"
proof -
  have g: "generateQuestion (Suc fuel) G (generate G) pos = Some (Inl TypeError)"
    using assms(2)
    by (simp add: generateQuestion_def generate_flags checkBudget_def attempt_no_bucket[OF assms(1)])
  have p: "placeWords (Suc fuel) G (Suc k) (generate G) pos = Some (Inl TypeError)"
    by (simp add: g)
  have "iterateLoop (Suc fuel) G [generate G] (0 # [1..<Suc j]) [] pos = Some (Inl TypeError)"
    using p assms(3) by (simp del: placeWords.simps)
  then show ?thesis
    by (simp add: iterate_def assms(4) upt_rec[of 0] del: upt_Suc iterateLoop.simps)
qed

text \<open>
  Claim C8: \<open>iterate\<close> never raises, also when no word was admitted into the length
  buckets. The code raises there. For the compilation of no dictionary, \<open>lengths\<close> is the
  empty array, the target length is 2, \<open>lengths[2]\<close> is \<open>undefined\<close> and the call of
  \<open>filter\<close> on it is a \<open>TypeError\<close>, in the first round of the first placement.
\<close>

theorem iterate_empty_dictionary_raises:
  "iterate 1 emptyGenerator [generate emptyGenerator] 0 = Some (Inl TypeError)"
proof -
  have "iterate (Suc 0) emptyGenerator [generate emptyGenerator] 0 = Some (Inl TypeError)"
    by (rule iterate_no_bucket[where k = 0 and j = 1])
       (simp_all add: emptyGenerator_def exampleOptions_def compile_Nil)
  then show ?thesis by simp
qed

section \<open>The retry budget of a placement\<close>





section \<open>The random numbers of the completion pass\<close>

text \<open>
  Claim C3: the same seed, compilation and options give the same grids after
  \<open>generate\<close>, \<open>iterate\<close> and \<open>fillEmptySpaces\<close>. The matrices of \<open>iterate\<close> are a
  function of the seeded source. \<open>fillEmptySpaces\<close> draws from \<open>Math.random\<close>, which no
  seed controls: on the matrix that \<open>iterate\<close> returns here, with \<open>CAT\<close> down the last
  column, the first row is filled with \<open>ARC\<close> when \<open>Math.random\<close> returns 0 and with
  \<open>MAC\<close> when it returns 1/2.
\<close>

theorem fillEmptySpaces_follows_Math_random:
  "placedWords (iterate 1 fillGenerator [generate fillGenerator] 0) = [[''CAT'']] \<and>
   placedWords (fillEmptySpaces 3 fillGenerator (\<lambda>n. 0)
      (resultMatrices (iterate 1 fillGenerator [generate fillGenerator] 0)) 0)
     = [[''CAT'', ''ARC'']] \<and>
   placedWords (fillEmptySpaces 3 fillGenerator (\<lambda>n. 1 / 2)
      (resultMatrices (iterate 1 fillGenerator [generate fillGenerator] 0)) 0)
     = [[''CAT'', ''MAC'']]"
  by code_simp

section \<open>Compilation: distinct words, buckets and letter index\<close>

lemma digitChar_inj: "a < 10 \<Longrightarrow> b < 10 \<Longrightarrow> digitChar a = digitChar b \<Longrightarrow> a = b"
  by (simp add: digitChar_def char_of_eq_iff take_bit_eq_mod)

lemma showNat_nonempty: "showNat n \<noteq> []"
  by (subst showNat.simps) simp

lemma showNat_length1: "length (showNat n) = Suc 0 \<longleftrightarrow> n < 10"
  by (subst showNat.simps) (simp add: showNat_nonempty)

lemma showNat_inj: "showNat n = showNat m \<Longrightarrow> n = m"
proof (induction n arbitrary: m rule: showNat.induct)
  case (1 n)
  show ?case
  proof (cases "n < 10")
    case True
    then have "length (showNat m) = Suc 0" using "1.prems" showNat_length1[of n] by simp
    then have m: "m < 10" by (simp add: showNat_length1)
    from True m "1.prems" have "digitChar n = digitChar m"
      by (simp add: showNat.simps[of n] showNat.simps[of m])
    with True m show ?thesis by (rule digitChar_inj)
  next
    case False
    then have "length (showNat m) \<noteq> Suc 0" using "1.prems" showNat_length1[of n] by simp
    then have m: "\<not> m < 10" by (simp add: showNat_length1)
    from False m "1.prems" have e: "showNat (n div 10) = showNat (m div 10)"
      "digitChar (n mod 10) = digitChar (m mod 10)"
      by (simp_all add: showNat.simps[of n] showNat.simps[of m])
    from "1.IH"[OF False e(1)] have d: "n div 10 = m div 10" .
    from e(2) have r: "n mod 10 = m mod 10" by (intro digitChar_inj) auto
    from d r show ?thesis by (metis div_mult_mod_eq)
  qed
qed

lemma letterKey_inj: "letterKey i [c] = letterKey j [d] \<longleftrightarrow> i = j \<and> c = d"
  by (auto simp: letterKey_def dest: showNat_inj)

lemma indexOf_None: "indexOf xs v = None \<longleftrightarrow> v \<notin> set xs"
  by (induction xs) auto

lemma distinct_pushUnique: "distinct xs \<Longrightarrow> distinct (fst (pushUnique xs item))"
  by (auto simp: pushUnique_def indexOf_None split: option.splits)

lemma addItem_distinct:
  "distinct (lwords s) \<Longrightarrow> distinct (lphrases s) \<Longrightarrow>
   distinct (lwords (addItem s item)) \<and> distinct (lphrases (addItem s item))"
  using distinct_pushUnique[of "lwords s" item] distinct_pushUnique[of "lphrases s" item]
  by (auto simp: addItem_def Let_def split: prod.splits)

lemma foldl_addItem_distinct:
  "distinct (lwords s) \<Longrightarrow> distinct (lphrases s) \<Longrightarrow>
   distinct (lwords (foldl addItem s line)) \<and> distinct (lphrases (foldl addItem s line))"
  by (induction line arbitrary: s) (auto dest: addItem_distinct)

lemma addLine_distinct:
  "distinct (fst st) \<Longrightarrow> distinct (fst (snd st)) \<Longrightarrow>
   distinct (fst (addLine st line)) \<and> distinct (fst (snd (addLine st line)))"
  using foldl_addItem_distinct[of "\<lparr>set1 = [], set2 = [], idxMap = Map.empty, lwords = fst st, lphrases = fst (snd st)\<rparr>" line]
  by (cases st) (auto simp: addLine_def Let_def)

lemma foldl_addLine_distinct:
  "distinct (fst st) \<Longrightarrow> distinct (fst (snd st)) \<Longrightarrow>
   distinct (fst (foldl addLine st data)) \<and> distinct (fst (snd (foldl addLine st data)))"
proof (induction data arbitrary: st)
  case Nil
  then show ?case by simp
next
  case (Cons line data)
  from addLine_distinct[OF Cons.prems, of line] Cons.IH[of "addLine st line"]
  show ?case by simp
qed

lemma compile_words: "words (compile ds) = fst (foldl addLine ([], [], Map.empty) (concat ds))"
  by (simp add: compile_def Let_def split: prod.splits)

lemma compile_phrases: "phrases (compile ds) = fst (snd (foldl addLine ([], [], Map.empty) (concat ds)))"
  by (simp add: compile_def Let_def split: prod.splits)

lemma compile_distinct: "distinct (words (compile ds)) \<and> distinct (phrases (compile ds))"
  using foldl_addLine_distinct[of "([], [], Map.empty)" "concat ds"]
  by (simp add: compile_words compile_phrases)

lemma idsAt_addLength:
  "idsAt (addLength ls len idx) l = idsAt ls l \<union> (if l = len then {idx} else {})"
  by (auto simp: idsAt_def addLength_def Let_def nth_list_update nth_append split: if_splits)

lemma idsOf_addLetter:
  "idsOf (addLetter word idx lt i) k = idsOf lt k \<union> (if k = letterKey i [word ! i] then {idx} else {})"
  by (auto simp: idsOf_def addLetter_def Let_def split: option.splits)

lemma idsOf_addLetters:
  "idsOf (foldl (addLetter word idx) lt [0..<n]) k =
     idsOf lt k \<union> (if \<exists>i<n. k = letterKey i [word ! i] then {idx} else {})"
proof (induction n)
  case 0
  show ?case by simp
next
  case (Suc n)
  show ?case
    by (simp add: idsOf_addLetter Suc.IH less_Suc_eq) blast
qed

lemma addWord_ids:
  "idsAt (fst (addWord (ls, lt) (word, idx))) l =
     idsAt ls l \<union> (if accepted word \<and> length word = l then {idx} else {})"
  "idsOf (snd (addWord (ls, lt) (word, idx))) k =
     idsOf lt k \<union> (if accepted word \<and> (\<exists>i<length word. k = letterKey i [word ! i]) then {idx} else {})"
  by (auto simp: addWord_def idsAt_addLength idsOf_addLetters)

lemma foldl_addWord_both:
  "idsAt (fst (foldl addWord (ls, lt) wis)) l =
     idsAt ls l \<union> {idx. \<exists>word. (word, idx) \<in> set wis \<and> accepted word \<and> length word = l} \<and>
   idsOf (snd (foldl addWord (ls, lt) wis)) k =
     idsOf lt k \<union> {idx. \<exists>word. (word, idx) \<in> set wis \<and> accepted word \<and>
        (\<exists>i<length word. k = letterKey i [word ! i])}"
proof (induction wis arbitrary: ls lt)
  case Nil
  show ?case by simp
next
  case (Cons wi wis)
  obtain word idx where wi: "wi = (word, idx)" by (cases wi)
  obtain ls' lt' where st: "addWord (ls, lt) (word, idx) = (ls', lt')"
    by (cases "addWord (ls, lt) (word, idx)")
  have step: "foldl addWord (ls, lt) (wi # wis) = foldl addWord (ls', lt') wis"
    by (simp add: wi st)
  have a1: "idsAt ls' l = idsAt ls l \<union> (if accepted word \<and> length word = l then {idx} else {})"
    using addWord_ids(1)[of ls lt word idx l] by (simp add: st)
  have a2: "idsOf lt' k = idsOf lt k \<union>
      (if accepted word \<and> (\<exists>i<length word. k = letterKey i [word ! i]) then {idx} else {})"
    using addWord_ids(2)[of ls lt word idx k] by (simp add: st)
  from Cons.IH[of ls' lt'] show ?case unfolding step a1 a2 by (auto simp: wi)
qed

lemmas foldl_addWord_ids = foldl_addWord_both[THEN conjunct1] foldl_addWord_both[THEN conjunct2]

lemma in_zip_upt: "(word, idx) \<in> set (zip ws [0..<length ws]) \<longleftrightarrow> idx < length ws \<and> ws ! idx = word"
  by (auto simp: in_set_zip)

lemma compile_lengths_letters:
  "idsAt (lengths (compile ds)) l =
     {idx. idx < length (words (compile ds)) \<and> accepted (words (compile ds) ! idx) \<and>
           length (words (compile ds) ! idx) = l}"
  "idsOf (letters (compile ds)) k =
     {idx. idx < length (words (compile ds)) \<and> accepted (words (compile ds) ! idx) \<and>
           (\<exists>i<length (words (compile ds) ! idx). k = letterKey i [words (compile ds) ! idx ! i])}"
proof -
  obtain ws ps gm where f: "foldl addLine ([], [], Map.empty) (concat ds) = (ws, ps, gm)"
    by (cases "foldl addLine ([], [], Map.empty) (concat ds)")
  have w: "words (compile ds) = ws" by (simp add: compile_def Let_def f split: prod.splits)
  have l: "lengths (compile ds) = fst (foldl addWord ([], Map.empty) (zip ws [0..<length ws]))"
    by (simp add: compile_def Let_def f split: prod.splits)
  have t: "letters (compile ds) = snd (foldl addWord ([], Map.empty) (zip ws [0..<length ws]))"
    by (simp add: compile_def Let_def f split: prod.splits)
  show "idsAt (lengths (compile ds)) l =
     {idx. idx < length (words (compile ds)) \<and> accepted (words (compile ds) ! idx) \<and>
           length (words (compile ds) ! idx) = l}"
    unfolding w l foldl_addWord_ids(1) by (auto simp: in_zip_upt idsAt_def)
  show "idsOf (letters (compile ds)) k =
     {idx. idx < length (words (compile ds)) \<and> accepted (words (compile ds) ! idx) \<and>
           (\<exists>i<length (words (compile ds) ! idx). k = letterKey i [words (compile ds) ! idx ! i])}"
    unfolding w t foldl_addWord_ids(2) by (auto simp: in_zip_upt idsOf_def)
qed

lemma bucket_idsAt: "bucket cpl len = idsAt (lengths cpl) len"
  by (simp add: bucket_def idsAt_def lengthsAt_def)

lemma letterIndex_idsOf: "letterIndex cpl i c = idsOf (letters cpl) (letterKey i [c])"
  by (simp add: letterIndex_def idsOf_def)

lemma takeWhile_eq_self: "takeWhile P xs = xs \<longleftrightarrow> (\<forall>x \<in> set xs. P x)"
  by (induction xs) auto

lemma accepted_iff: "accepted word \<longleftrightarrow> 1 < length word \<and> (\<forall>c \<in> set word. inClass c)"
proof
  assume a: "accepted word"
  then have m: "matchClass word = Some word" and l: "1 < length word" by (auto simp: accepted_def)
  let ?rest = "dropWhile (\<lambda>c. \<not> inClass c) word"
  from m have t: "takeWhile inClass ?rest = word"
    by (auto simp: matchClass_def Let_def split: if_splits)
  have "length (takeWhile inClass ?rest) \<le> length ?rest" by (rule length_takeWhile_le)
  moreover have "length ?rest \<le> length word" by (rule length_dropWhile_le)
  ultimately have "length ?rest = length word" using t by simp
  then have "?rest = word"
    by (metis append_eq_conv_conj append_self_conv2 length_0_conv length_append
        add_cancel_left_left takeWhile_dropWhile_id)
  with t have "takeWhile inClass word = word" by simp
  then have "\<forall>c \<in> set word. inClass c" by (simp add: takeWhile_eq_self)
  with l show "1 < length word \<and> (\<forall>c \<in> set word. inClass c)" by simp
next
  assume a: "1 < length word \<and> (\<forall>c \<in> set word. inClass c)"
  then obtain c cs where w: "word = c # cs" by (cases word) auto
  with a have "dropWhile (\<lambda>c. \<not> inClass c) word = word" by simp
  moreover from a have "takeWhile inClass word = word" by (simp add: takeWhile_eq_self)
  ultimately show "accepted word" using a w by (simp add: accepted_def matchClass_def Let_def)
qed

text \<open>
  Claim C6, as stated: every word id is in the length bucket of the length of its word
  and in the letter index of each of its characters. The code admits only the words
  that match the pattern: \<open>feline\<close>, word 1 of the entry \<open>CAT, feline\<close>, has six
  characters and starts with \<open>f\<close>, and is neither in the bucket for 6 nor in the letter
  index at \<open>(0, f)\<close>.
\<close>

theorem compile_indices_counterexample:
  "1 < length (words (compile [[[''CAT'', ''feline'']]])) \<and>
   length (words (compile [[[''CAT'', ''feline'']]]) ! 1) = 6 \<and>
   1 \<notin> bucket (compile [[[''CAT'', ''feline'']]]) 6 \<and>
   words (compile [[[''CAT'', ''feline'']]]) ! 1 ! 0 = CHR ''f'' \<and>
   1 \<notin> letterIndex (compile [[[''CAT'', ''feline'']]]) 0 CHR ''f''"
  by code_simp

text \<open>
  Claim C6, amended. For every compilation that \<open>compile\<close> produces, \<open>words\<close> and
  \<open>phrases\<close> hold no string twice, and for every word id \<open>w\<close>: \<open>w\<close> is in the length
  bucket for \<open>len\<close> if and only if its word is accepted (more than one character, all of
  them in the class of the pattern) and has length \<open>len\<close>; \<open>w\<close> is in the letter index at
  \<open>(i, c)\<close> if and only if its word is accepted and its \<open>i\<close>-th character is \<open>c\<close>.
\<close>

theorem compile_indices:
  "distinct (words (compile ds)) \<and> distinct (phrases (compile ds)) \<and>
   (\<forall>w < length (words (compile ds)). \<forall>len.
      w \<in> bucket (compile ds) len \<longleftrightarrow>
        (1 < length (words (compile ds) ! w) \<and> (\<forall>c \<in> set (words (compile ds) ! w). inClass c)) \<and>
        length (words (compile ds) ! w) = len) \<and>
   (\<forall>w < length (words (compile ds)). \<forall>i c.
      w \<in> letterIndex (compile ds) i c \<longleftrightarrow>
        (1 < length (words (compile ds) ! w) \<and> (\<forall>c \<in> set (words (compile ds) ! w). inClass c)) \<and>
        i < length (words (compile ds) ! w) \<and> words (compile ds) ! w ! i = c)"
proof -
  have b: "\<forall>w < length (words (compile ds)). \<forall>len.
      w \<in> bucket (compile ds) len \<longleftrightarrow>
        (1 < length (words (compile ds) ! w) \<and> (\<forall>c \<in> set (words (compile ds) ! w). inClass c)) \<and>
        length (words (compile ds) ! w) = len"
    by (simp add: bucket_idsAt compile_lengths_letters(1) accepted_iff)
  have l: "\<forall>w < length (words (compile ds)). \<forall>i c.
      w \<in> letterIndex (compile ds) i c \<longleftrightarrow>
        (1 < length (words (compile ds) ! w) \<and> (\<forall>c \<in> set (words (compile ds) ! w). inClass c)) \<and>
        i < length (words (compile ds) ! w) \<and> words (compile ds) ! w ! i = c"
    by (auto simp: letterIndex_idsOf compile_lengths_letters(2) accepted_iff letterKey_inj)
  from compile_distinct[of ds] b l show ?thesis by blast
qed

theorem compile_indices_witness:
  "0 \<in> bucket (compile [[[''CAT'', ''feline'']]]) 3 \<and>
   0 \<in> letterIndex (compile [[[''CAT'', ''feline'']]]) 1 CHR ''A'' \<and>
   1 \<notin> bucket (compile [[[''CAT'', ''feline'']]]) 6"
proof -
  have w: "words (compile [[[''CAT'', ''feline'']]]) = [''CAT'', ''feline'']" by code_simp
  have c: "\<forall>c \<in> set ''CAT''. inClass c" by code_simp
  have f: "\<not> (\<forall>c \<in> set ''feline''. inClass c)" by code_simp
  from compile_indices[of "[[[''CAT'', ''feline'']]]"] w c f show ?thesis by simp
qed

section \<open>Termination of the completion pass\<close>

lemma rand_index: "ws \<noteq> [] \<Longrightarrow> nat \<lfloor>rand src n * of_nat (length ws)\<rfloor> < length ws"
  using floor_scaled[of "rand src n" "int (length ws)"] rand_range[of src n]
  by (simp add: nat_less_iff)

lemma rand_pick: "ws \<noteq> [] \<Longrightarrow> ws ! nat \<lfloor>rand src n * of_nat (length ws)\<rfloor> \<in> set ws"
  by (simp add: rand_index)

lemma finite_bucketIds: "finite (bucketIds cpl)"
  by (simp add: bucketIds_def)

lemma lengthsAt_bucketIds: "lengthsAt cpl len = Some ws \<Longrightarrow> set ws \<subseteq> bucketIds cpl"
  by (auto simp: lengthsAt_def bucketIds_def split: if_splits intro: nth_mem)

lemma set_narrow: "set (narrow cpl ws k) \<subseteq> set ws"
  by (auto simp: narrow_def split: option.splits)

lemma set_foldl_narrow: "set (foldl (narrow cpl) ws ms) \<subseteq> set ws"
proof (induction ms arbitrary: ws)
  case Nil
  show ?case by simp
next
  case (Cons k ms)
  from Cons.IH[of "narrow cpl ws k"] set_narrow[of cpl ws k] show ?case by auto
qed

lemma candidates_fresh:
  "candidates G m pt ms = Some ws \<Longrightarrow>
   set ws \<subseteq> bucketIds (compilation (options G)) - questions m"
proof -
  assume c: "candidates G m pt ms = Some ws"
  then obtain bs where b: "lengthsAt (compilation (options G)) (p_size pt) = Some bs"
    and w: "ws = filter (\<lambda>w. w \<notin> questions m)
          (foldl (narrow (compilation (options G))) (filter (\<lambda>w. w \<notin> ignored G) bs) ms)"
    by (auto simp: candidates_def Let_def split: option.splits)
  have "set ws \<subseteq> set bs"
    using set_foldl_narrow[of "compilation (options G)" "filter (\<lambda>w. w \<notin> ignored G) bs" ms]
    unfolding w by auto
  with lengthsAt_bucketIds[OF b] show ?thesis unfolding w by auto
qed

lemma setCell_fields:
  "questions (setCell m cx cy c) = questions m"
  "questionsData (setCell m cx cy c) = questionsData m"
  "finish (setCell m cx cy c) = finish m" "borde (setCell m cx cy c) = borde m"
  "mwidth (setCell m cx cy c) = mwidth m" "mheight (setCell m cx cy c) = mheight m"
  by (simp_all add: setCell_def)

lemma writeWord_fields:
  "writeWord m hz x y letra is = Inr m' \<Longrightarrow>
   questions m' = questions m \<and> questionsData m' = questionsData m \<and>
   finish m' = finish m \<and> borde m' = borde m \<and> mwidth m' = mwidth m \<and> mheight m' = mheight m"
proof (induction "is" arbitrary: m)
  case Nil
  then show ?case by simp
next
  case (Cons i "is")
  then show ?case
    by (auto simp: writeCell_def setCell_fields split: sum.splits option.splits)
qed

lemma fillPoint_questions:
  "ws \<noteq> [] \<Longrightarrow> fillPoint G mr m pt ws mpos = Inr m' \<Longrightarrow>
   \<exists>idx \<in> set ws. questions m' = insert idx (questions m)"
  using rand_pick[of ws mr mpos]
  by (auto simp: fillPoint_def Let_def split: if_splits sum.splits dest!: writeWord_fields)

lemma tryPoints_progress:
  "tryPoints G mr m pts mpos = Inr (Some (m', mpos')) \<Longrightarrow>
   \<exists>idx \<in> bucketIds (compilation (options G)) - questions m. questions m' = insert idx (questions m)"
proof (induction pts)
  case Nil
  then show ?case by simp
next
  case (Cons pt pts)
  show ?case
  proof (cases "pointMatches G m pt")
    case (Inl e)
    with Cons.prems show ?thesis by simp
  next
    case (Inr ms)
    show ?thesis
    proof (cases "candidates G m pt ms")
      case None
      with Inr Cons show ?thesis by simp
    next
      case (Some ws)
      show ?thesis
      proof (cases "ws = []")
        case True
        with Inr Some Cons show ?thesis by simp
      next
        case False
        with Inr Some Cons.prems obtain m1 where f: "fillPoint G mr m pt ws mpos = Inr m1" "m' = m1"
          by (auto split: sum.splits)
        from fillPoint_questions[OF False f(1)] candidates_fresh[OF Some] f(2)
        show ?thesis by blast
      qed
    qed
  qed
qed

lemma fillPass_progress:
  "fillPass G mr m mpos = Inr (Some (m', mpos')) \<Longrightarrow>
   \<exists>idx \<in> bucketIds (compilation (options G)) - questions m. questions m' = insert idx (questions m)"
  by (auto simp: fillPass_def split: sum.splits dest: tryPoints_progress)

lemma fillMatrix_returns:
  "card (bucketIds (compilation (options G)) - questions m) < fuel \<Longrightarrow>
   fillMatrix fuel G mr m mpos \<noteq> None"
proof (induction fuel arbitrary: m mpos)
  case 0
  then show ?case by simp
next
  case (Suc fuel)
  show ?case
  proof (cases "fillPass G mr m mpos")
    case (Inl e)
    then show ?thesis by simp
  next
    case (Inr r)
    show ?thesis
    proof (cases r)
      case None
      with Inr show ?thesis by simp
    next
      case (Some p)
      obtain m' mpos' where p: "p = (m', mpos')" by (cases p)
      from fillPass_progress[of G mr m mpos m' mpos'] Inr Some p
      obtain idx where i: "idx \<in> bucketIds (compilation (options G)) - questions m"
        "questions m' = insert idx (questions m)" by auto
      have "bucketIds (compilation (options G)) - questions m' \<subset>
            bucketIds (compilation (options G)) - questions m" using i by auto
      then have "card (bucketIds (compilation (options G)) - questions m') <
            card (bucketIds (compilation (options G)) - questions m)"
        by (intro psubset_card_mono) (auto simp: finite_bucketIds)
      with Suc.prems have "card (bucketIds (compilation (options G)) - questions m') < fuel" by simp
      from Suc.IH[OF this] Inr Some p show ?thesis by simp
    qed
  qed
qed

lemma fillAll_returns:
  "card (bucketIds (compilation (options G))) < fuel \<Longrightarrow> fillAll fuel G mr ms mpos \<noteq> None"
proof (induction ms arbitrary: mpos)
  case Nil
  show ?case by simp
next
  case (Cons m ms)
  have "card (bucketIds (compilation (options G)) - questions m) \<le> card (bucketIds (compilation (options G)))"
    by (intro card_mono) (auto simp: finite_bucketIds)
  with Cons.prems have "fillMatrix fuel G mr m mpos \<noteq> None" by (intro fillMatrix_returns) simp
  then obtain r where r: "fillMatrix fuel G mr m mpos = Some r" by auto
  show ?case
  proof (cases r)
    case (Inl e)
    with r show ?thesis by simp
  next
    case (Inr mp)
    obtain m' p where mp: "mp = (m', p)" by (cases mp)
    from Cons.IH[OF Cons.prems, of p] obtain r2 where "fillAll fuel G mr ms p = Some r2" by auto
    with r Inr mp show ?thesis by (cases r2) auto
  qed
qed

text \<open>
  Claim C9. \<open>fillEmptySpaces\<close> terminates on every array of matrices, whatever
  their cells hold: each of the four inner scans is a total function (its index moves
  towards the edge of the grid in every round), and the outer loop of a matrix makes at
  most one round more than there are ids in the length buckets, since every round but
  the last marks a new id as used. With that many rounds allowed, the bound is not hit.
\<close>

theorem fillEmptySpaces_terminates:
  "fillEmptySpaces (Suc (card (bucketIds (compilation (options G))))) G mathRandom matrices mpos \<noteq> None"
  using fillAll_returns[of G "Suc (card (bucketIds (compilation (options G))))" mathRandom matrices mpos]
  by (auto simp: fillEmptySpaces_def split: option.splits sum.splits)

section \<open>The coherence of a matrix with its placement list\<close>

text \<open>Cells: reading, writing, and what \<open>writeWord\<close> leaves behind.\<close>

lemma cellAt_Some:
  "cellAt m cx cy = Some c \<longleftrightarrow>
     0 \<le> cy \<and> nat cy < length (rows m) \<and> 0 \<le> cx \<and> nat cx < length (rows m ! nat cy) \<and>
     c = rows m ! nat cy ! nat cx"
  by (auto simp: cellAt_def)

lemma cellAt_setCell:
  "cellAt m cx cy = Some c0 \<Longrightarrow>
   cellAt (setCell m cx cy c) cx' cy' = (if cx' = cx \<and> cy' = cy then Some c else cellAt m cx' cy')"
  by (auto simp: cellAt_def setCell_def nth_list_update split: if_splits)

lemma lengths_setCell: "map length (rows (setCell m cx cy c)) = map length (rows m)"
proof (cases "nat cy < length (rows m)")
  case True
  then show ?thesis by (simp add: setCell_def map_update list_update_same_conv)
next
  case False
  then show ?thesis by (simp add: setCell_def list_update_beyond)
qed

lemma spanXY_inj: "spanX hz x i = spanX hz x j \<and> spanY hz y i = spanY hz y j \<longleftrightarrow> i = j"
  by (auto simp: spanX_def spanY_def)

lemma writeWord_lengths:
  "writeWord m hz x y letra is = Inr m' \<Longrightarrow> map length (rows m') = map length (rows m)"
proof (induction "is" arbitrary: m)
  case Nil
  then show ?case by simp
next
  case (Cons i "is")
  then show ?case
    by (auto simp: writeCell_def lengths_setCell split: sum.splits option.splits)
qed

lemma writeWord_other:
  "writeWord m hz x y letra is = Inr m' \<Longrightarrow>
   \<forall>i \<in> set is. \<not> (spanX hz x i = cx \<and> spanY hz y i = cy) \<Longrightarrow>
   cellAt m' cx cy = cellAt m cx cy"
proof (induction "is" arbitrary: m)
  case Nil
  then show ?case by simp
next
  case (Cons i "is")
  from Cons.prems(1) obtain c0 m1 where
    c0: "cellAt m (spanX hz x i) (spanY hz y i) = Some c0"
    and m1: "m1 = setCell m (spanX hz x i) (spanY hz y i) (mark hz (letra i) c0)"
    and w: "writeWord m1 hz x y letra is = Inr m'"
    by (auto simp: writeCell_def split: sum.splits option.splits)
  from Cons.IH[OF w] Cons.prems(2) have "cellAt m' cx cy = cellAt m1 cx cy" by simp
  also have "\<dots> = cellAt m cx cy"
    unfolding m1 using cellAt_setCell[OF c0] Cons.prems(2) by auto
  finally show ?case .
qed

lemma writeWord_written:
  "writeWord m hz x y letra is = Inr m' \<Longrightarrow> distinct is \<Longrightarrow> i \<in> set is \<Longrightarrow>
   \<exists>c. cellAt m (spanX hz x i) (spanY hz y i) = Some c \<and>
       cellAt m' (spanX hz x i) (spanY hz y i) = Some (mark hz (letra i) c)"
proof (induction "is" arbitrary: m)
  case Nil
  then show ?case by simp
next
  case (Cons j "is")
  from Cons.prems(1) obtain c0 m1 where
    c0: "cellAt m (spanX hz x j) (spanY hz y j) = Some c0"
    and m1: "m1 = setCell m (spanX hz x j) (spanY hz y j) (mark hz (letra j) c0)"
    and w: "writeWord m1 hz x y letra is = Inr m'"
    by (auto simp: writeCell_def split: sum.splits option.splits)
  show ?case
  proof (cases "i = j")
    case True
    have "\<forall>k \<in> set is. \<not> (spanX hz x k = spanX hz x j \<and> spanY hz y k = spanY hz y j)"
      using Cons.prems(2) by (auto simp: spanXY_inj)
    from writeWord_other[OF w this]
    have "cellAt m' (spanX hz x j) (spanY hz y j) = cellAt m1 (spanX hz x j) (spanY hz y j)" .
    also have "\<dots> = Some (mark hz (letra j) c0)"
      unfolding m1 using cellAt_setCell[OF c0] by simp
    finally show ?thesis using c0 True by simp
  next
    case False
    with Cons.prems have i: "i \<in> set is" "distinct is" by auto
    from Cons.IH[OF w i(2) i(1)] obtain c where
      c: "cellAt m1 (spanX hz x i) (spanY hz y i) = Some c"
         "cellAt m' (spanX hz x i) (spanY hz y i) = Some (mark hz (letra i) c)" by blast
    have "cellAt m1 (spanX hz x i) (spanY hz y i) = cellAt m (spanX hz x i) (spanY hz y i)"
      unfolding m1 using cellAt_setCell[OF c0] False spanXY_inj[of hz x i j y] by auto
    with c show ?thesis by simp
  qed
qed

lemma writeWord_fields2:
  "writeWord m hz x y letra is = Inr m' \<Longrightarrow>
   questions m' = questions m \<and> questionsData m' = questionsData m"
proof (induction "is" arbitrary: m)
  case Nil
  then show ?case by simp
next
  case (Cons i "is")
  then show ?case
    by (auto simp: writeCell_def setCell_def split: sum.splits option.splits)
qed

subsection \<open>Consequences of the coherence\<close>

lemma dims_iff:
  "(length rs = h \<and> (\<forall>row \<in> set rs. length row = w)) \<longleftrightarrow> map length rs = replicate h w"
proof
  assume a: "length rs = h \<and> (\<forall>row \<in> set rs. length row = w)"
  then have "map length rs = replicate (length rs) w"
    by (intro replicate_eqI) auto
  with a show "map length rs = replicate h w" by simp
next
  assume a: "map length rs = replicate h w"
  then have l: "length rs = h" by (metis length_map length_replicate)
  have "\<forall>row \<in> set rs. length row = w"
  proof
    fix row assume "row \<in> set rs"
    then have "length row \<in> set (map length rs)" by auto
    with a show "length row = w" by auto
  qed
  with l show "length rs = h \<and> (\<forall>row \<in> set rs. length row = w)" by simp
qed

lemma coherent_dims:
  "coherent G m \<Longrightarrow> map length (rows m) = replicate (height (options G)) (width (options G))"
  using dims_iff[of "rows m" "height (options G)" "width (options G)"]
  by (simp add: coherent_def)

lemma cellAt_range:
  assumes "map length (rows m) = replicate h w" "cellAt m cx cy = Some c"
  shows "0 \<le> cx \<and> cx < int w \<and> 0 \<le> cy \<and> cy < int h"
proof -
  from assms(2) have r: "0 \<le> cy" "nat cy < length (rows m)" "0 \<le> cx"
    "nat cx < length (rows m ! nat cy)" by (auto simp: cellAt_Some)
  from assms(1) have l: "length (rows m) = h" by (metis length_map length_replicate)
  from r(2) have "length (rows m ! nat cy) = map length (rows m) ! nat cy" by simp
  also have "\<dots> = w" using assms(1) r(2) l by simp
  finally show ?thesis using r l by auto
qed

lemma coherent_cellD:
  "coherent G m \<Longrightarrow> cellAt m cx cy = Some c \<Longrightarrow>
     (inHorizontal c \<longleftrightarrow> (\<exists>q \<in> set (questionsData m). q_horizontal q \<and> covers q cx cy)) \<and>
     (inVertical c \<longleftrightarrow> (\<exists>q \<in> set (questionsData m). \<not> q_horizontal q \<and> covers q cx cy)) \<and>
     (letter c \<noteq> emptySpace (options G) \<longleftrightarrow> inHorizontal c \<or> inVertical c) \<and>
     (\<forall>q \<in> set (questionsData m). covers q cx cy \<longrightarrow> letter c = [charAtCell q cx cy])"
  by (simp add: coherent_def)

lemma coherent_flag:
  "coherent G m \<Longrightarrow> cellAt m cx cy = Some c \<Longrightarrow>
   flag hz c \<longleftrightarrow> (\<exists>q \<in> set (questionsData m). q_horizontal q = hz \<and> covers q cx cy)"
  using coherent_cellD[of G m cx cy c] by (cases hz) (simp_all add: flag_def)

lemma coherent_letter:
  "coherent G m \<Longrightarrow> cellAt m cx cy = Some c \<Longrightarrow>
   letter c \<noteq> emptySpace (options G) \<longleftrightarrow> inHorizontal c \<or> inVertical c"
  using coherent_cellD[of G m cx cy c] by simp

lemma coherent_covered:
  "coherent G m \<Longrightarrow> cellAt m cx cy = Some c \<Longrightarrow> q \<in> set (questionsData m) \<Longrightarrow>
   covers q cx cy \<Longrightarrow> letter c = [charAtCell q cx cy] \<and> letter c \<noteq> emptySpace (options G)"
proof -
  assume a: "coherent G m" "cellAt m cx cy = Some c" "q \<in> set (questionsData m)" "covers q cx cy"
  then have 1: "letter c = [charAtCell q cx cy]" using coherent_cellD[of G m cx cy c] by simp
  from a have "flag (q_horizontal q) c" by (auto simp: coherent_flag)
  then have "inHorizontal c \<or> inVertical c" by (auto simp: flag_def split: if_splits)
  with a(1,2) have "letter c \<noteq> emptySpace (options G)" by (simp add: coherent_letter)
  with 1 show ?thesis by simp
qed

lemma covers_span:
  "q_horizontal q = hz \<Longrightarrow> q_x q = x \<Longrightarrow> q_y q = y \<Longrightarrow>
   covers q cx cy \<longleftrightarrow> (\<exists>i < length (q_word q). spanX hz x i = cx \<and> spanY hz y i = cy)"
proof
  assume a: "q_horizontal q = hz" "q_x q = x" "q_y q = y" "covers q cx cy"
  show "\<exists>i < length (q_word q). spanX hz x i = cx \<and> spanY hz y i = cy"
  proof (cases hz)
    case True
    with a have "nat (cx - x) < length (q_word q) \<and> spanX hz x (nat (cx - x)) = cx \<and>
        spanY hz y (nat (cx - x)) = cy"
      by (auto simp: covers_def spanX_def spanY_def)
    then show ?thesis by blast
  next
    case False
    with a have "nat (cy - y) < length (q_word q) \<and> spanX hz x (nat (cy - y)) = cx \<and>
        spanY hz y (nat (cy - y)) = cy"
      by (auto simp: covers_def spanX_def spanY_def)
    then show ?thesis by blast
  qed
next
  assume a: "q_horizontal q = hz" "q_x q = x" "q_y q = y"
    "\<exists>i < length (q_word q). spanX hz x i = cx \<and> spanY hz y i = cy"
  then show "covers q cx cy" by (auto simp: covers_def spanX_def spanY_def)
qed

lemma charAtCell_span:
  "q_horizontal q = hz \<Longrightarrow> q_x q = x \<Longrightarrow> q_y q = y \<Longrightarrow>
   charAtCell q (spanX hz x i) (spanY hz y i) = q_word q ! i"
  by (auto simp: charAtCell_def spanX_def spanY_def)

lemma flag_mark:
  "flag o' (mark hz l c) = (if o' = hz then True else flag o' c)"
  "letter (mark hz l c) = l"
  by (auto simp: flag_def mark_def)

lemma coherent_cong:
  "rows m' = rows m \<Longrightarrow> questionsData m' = questionsData m \<Longrightarrow> coherent G m' = coherent G m"
  by (simp add: coherent_def cellAt_def)

subsection \<open>Writing a word keeps the coherence\<close>

text \<open>
  The word may be written when every cell of its span is in the grid, free of a word of
  the same orientation, and empty or already holding the character of the word.
\<close>

lemma coherentI:
  assumes d: "map length (rows m) = replicate (height (options G)) (width (options G))"
    and q: "\<And>q. q \<in> set (questionsData m) \<Longrightarrow> placedFrom (compilation (options G)) q \<and> inside G q"
    and f: "\<And>cx cy c hz. cellAt m cx cy = Some c \<Longrightarrow>
        flag hz c \<longleftrightarrow> (\<exists>q \<in> set (questionsData m). q_horizontal q = hz \<and> covers q cx cy)"
    and e: "\<And>cx cy c. cellAt m cx cy = Some c \<Longrightarrow>
        letter c \<noteq> emptySpace (options G) \<longleftrightarrow> inHorizontal c \<or> inVertical c"
    and l: "\<And>cx cy c q. cellAt m cx cy = Some c \<Longrightarrow> q \<in> set (questionsData m) \<Longrightarrow>
        covers q cx cy \<Longrightarrow> letter c = [charAtCell q cx cy]"
    and s: "\<And>i j cx cy. i < length (questionsData m) \<Longrightarrow> j < length (questionsData m) \<Longrightarrow> i \<noteq> j \<Longrightarrow>
        q_horizontal (questionsData m ! i) = q_horizontal (questionsData m ! j) \<Longrightarrow>
        covers (questionsData m ! i) cx cy \<Longrightarrow> covers (questionsData m ! j) cx cy \<Longrightarrow> False"
  shows "coherent G m"
proof -
  have 1: "length (rows m) = height (options G) \<and> (\<forall>row \<in> set (rows m). length row = width (options G))"
    using d by (simp add: dims_iff)
  have 2: "\<forall>q \<in> set (questionsData m). placedFrom (compilation (options G)) q \<and> inside G q"
    using q by blast
  have 3: "\<forall>cx cy c. cellAt m cx cy = Some c \<longrightarrow>
        (inHorizontal c \<longleftrightarrow> (\<exists>q \<in> set (questionsData m). q_horizontal q \<and> covers q cx cy)) \<and>
        (inVertical c \<longleftrightarrow> (\<exists>q \<in> set (questionsData m). \<not> q_horizontal q \<and> covers q cx cy)) \<and>
        (letter c \<noteq> emptySpace (options G) \<longleftrightarrow> inHorizontal c \<or> inVertical c) \<and>
        (\<forall>q \<in> set (questionsData m). covers q cx cy \<longrightarrow> letter c = [charAtCell q cx cy])"
  proof (intro allI impI)
    fix cx cy c assume c: "cellAt m cx cy = Some c"
    from f[OF c, of True] have a: "inHorizontal c \<longleftrightarrow>
        (\<exists>q \<in> set (questionsData m). q_horizontal q \<and> covers q cx cy)" by (simp add: flag_def)
    from f[OF c, of False] have b: "inVertical c \<longleftrightarrow>
        (\<exists>q \<in> set (questionsData m). \<not> q_horizontal q \<and> covers q cx cy)" by (simp add: flag_def)
    from a b e[OF c] l[OF c]
    show "(inHorizontal c \<longleftrightarrow> (\<exists>q \<in> set (questionsData m). q_horizontal q \<and> covers q cx cy)) \<and>
        (inVertical c \<longleftrightarrow> (\<exists>q \<in> set (questionsData m). \<not> q_horizontal q \<and> covers q cx cy)) \<and>
        (letter c \<noteq> emptySpace (options G) \<longleftrightarrow> inHorizontal c \<or> inVertical c) \<and>
        (\<forall>q \<in> set (questionsData m). covers q cx cy \<longrightarrow> letter c = [charAtCell q cx cy])"
      by blast
  qed
  have 4: "\<forall>i < length (questionsData m). \<forall>j < length (questionsData m).
        i \<noteq> j \<and> q_horizontal (questionsData m ! i) = q_horizontal (questionsData m ! j) \<longrightarrow>
        \<not> (\<exists>cx cy. covers (questionsData m ! i) cx cy \<and> covers (questionsData m ! j) cx cy)"
    using s by blast
  from 1 2 3 4 show ?thesis unfolding coherent_def by blast
qed

lemma coherent_disjoint:
  "coherent G m \<Longrightarrow> i < length (questionsData m) \<Longrightarrow> j < length (questionsData m) \<Longrightarrow> i \<noteq> j \<Longrightarrow>
   q_horizontal (questionsData m ! i) = q_horizontal (questionsData m ! j) \<Longrightarrow>
   covers (questionsData m ! i) cx cy \<Longrightarrow> covers (questionsData m ! j) cx cy \<Longrightarrow> False"
  unfolding coherent_def by blast

lemma coherent_entry:
  "coherent G m \<Longrightarrow> q \<in> set (questionsData m) \<Longrightarrow>
   placedFrom (compilation (options G)) q \<and> inside G q"
  unfolding coherent_def by blast

lemma coherent_place:
  assumes coh: "coherent G m"
    and mk: "markerApart (options G)"
    and pf: "placedFrom (compilation (options G)) q"
    and cls: "\<forall>c \<in> set (q_word q). inClass c"
    and len: "0 < length (q_word q)"
    and span: "\<forall>i < length (q_word q). \<exists>c. cellAt m (spanX hz x i) (spanY hz y i) = Some c \<and>
        \<not> flag hz c \<and> (letter c \<noteq> emptySpace (options G) \<longrightarrow> letter c = [q_word q ! i])"
    and qh: "q_horizontal q = hz" and qx: "q_x q = x" and qy: "q_y q = y"
    and wr: "writeWord m hz x y letra [0..<length (q_word q)] = Inr m1"
    and letra: "\<forall>i < length (q_word q). letra i = [q_word q ! i]"
    and rows': "rows m' = rows m1" and qd': "questionsData m' = questionsData m @ [q]"
  shows "coherent G m'"
proof (rule coherentI)
  let ?n = "length (q_word q)"
  have cell': "cellAt m' cx cy = cellAt m1 cx cy" for cx cy
    by (simp add: cellAt_def rows')
  have dm: "map length (rows m) = replicate (height (options G)) (width (options G))"
    using coh by (rule coherent_dims)
  show "map length (rows m') = replicate (height (options G)) (width (options G))"
    using writeWord_lengths[OF wr] dm by (simp add: rows')
  have cov: "covers q cx cy \<longleftrightarrow> (\<exists>i < ?n. spanX hz x i = cx \<and> spanY hz y i = cy)" for cx cy
    by (rule covers_span[OF qh qx qy])
  have outside: "cellAt m' cx cy = cellAt m cx cy" if "\<not> covers q cx cy" for cx cy
  proof -
    from that have "\<forall>i \<in> set [0..<?n]. \<not> (spanX hz x i = cx \<and> spanY hz y i = cy)"
      by (auto simp: cov)
    from writeWord_other[OF wr this] show ?thesis by (simp add: cell')
  qed
  have within: "\<exists>c. cellAt m (spanX hz x i) (spanY hz y i) = Some c \<and> \<not> flag hz c \<and>
        (letter c \<noteq> emptySpace (options G) \<longrightarrow> letter c = [q_word q ! i]) \<and>
        cellAt m' (spanX hz x i) (spanY hz y i) = Some (mark hz [q_word q ! i] c)"
    if "i < ?n" for i
  proof -
    from that have "i \<in> set [0..<?n]" by simp
    from writeWord_written[OF wr _ this] obtain c where
      c: "cellAt m (spanX hz x i) (spanY hz y i) = Some c"
         "cellAt m1 (spanX hz x i) (spanY hz y i) = Some (mark hz (letra i) c)" by auto
    from span that c(1) have "\<not> flag hz c \<and>
        (letter c \<noteq> emptySpace (options G) \<longrightarrow> letter c = [q_word q ! i])" by auto
    with c letra that show ?thesis by (auto simp: cell')
  qed
  have fresh: "letter (mark hz [q_word q ! i] c) \<noteq> emptySpace (options G)" if "i < ?n" for i c
  proof -
    from that cls have "inClass (q_word q ! i)" by simp
    with mk show ?thesis by (auto simp: markerApart_def flag_mark)
  qed
  have oldsame: "q_horizontal q' \<noteq> hz" if "q' \<in> set (questionsData m)" "covers q' cx cy" "covers q cx cy"
    for q' cx cy
  proof
    assume h: "q_horizontal q' = hz"
    from that(3) obtain i where i: "i < ?n" "spanX hz x i = cx" "spanY hz y i = cy" by (auto simp: cov)
    from within[OF i(1)] obtain c where c: "cellAt m cx cy = Some c" "\<not> flag hz c" using i by auto
    from coherent_flag[OF coh c(1), of hz] that h c(2) show False by blast
  qed
  show "placedFrom (compilation (options G)) q' \<and> inside G q'" if "q' \<in> set (questionsData m')" for q'
  proof (cases "q' = q")
    case False
    with that coh show ?thesis by (auto simp: qd' dest: coherent_entry)
  next
    case True
    from within[of 0] len obtain c0 where c0: "cellAt m (spanX hz x 0) (spanY hz y 0) = Some c0"
      by auto
    from within[of "?n - 1"] len obtain c1 where
      c1: "cellAt m (spanX hz x (?n - 1)) (spanY hz y (?n - 1)) = Some c1" by auto
    from cellAt_range[OF dm c0] cellAt_range[OF dm c1] len
    have "inside G q"
      by (cases hz) (auto simp: inside_def qh qx qy spanX_def spanY_def)
    with pf True show ?thesis by simp
  qed
  show "flag o' c = (\<exists>q' \<in> set (questionsData m'). q_horizontal q' = o' \<and> covers q' cx cy)"
    if c: "cellAt m' cx cy = Some c" for cx cy c o'
  proof (cases "covers q cx cy")
    case False
    with c outside have "cellAt m cx cy = Some c" by simp
    from coherent_flag[OF coh this, of o'] False show ?thesis by (auto simp: qd')
  next
    case True
    then obtain i where i: "i < ?n" "spanX hz x i = cx" "spanY hz y i = cy" by (auto simp: cov)
    from within[OF i(1)] c i obtain c0 where c0: "cellAt m cx cy = Some c0" "\<not> flag hz c0"
      "c = mark hz [q_word q ! i] c0" by auto
    show ?thesis
    proof (cases "o' = hz")
      case same: True
      with True qh c0(3) show ?thesis by (auto simp: qd' flag_mark)
    next
      case diff: False
      from coherent_flag[OF coh c0(1), of o'] diff qh c0(3) show ?thesis
        by (auto simp: qd' flag_mark)
    qed
  qed
  show "letter c \<noteq> emptySpace (options G) \<longleftrightarrow> inHorizontal c \<or> inVertical c"
    if c: "cellAt m' cx cy = Some c" for cx cy c
  proof (cases "covers q cx cy")
    case False
    with c outside have "cellAt m cx cy = Some c" by simp
    from coherent_letter[OF coh this] show ?thesis .
  next
    case True
    then obtain i where i: "i < ?n" "spanX hz x i = cx" "spanY hz y i = cy" by (auto simp: cov)
    from within[OF i(1)] c i obtain c0 where c0: "c = mark hz [q_word q ! i] c0" by auto
    from fresh[OF i(1), of c0] c0 show ?thesis by (auto simp: mark_def)
  qed
  show "letter c = [charAtCell q' cx cy]"
    if c: "cellAt m' cx cy = Some c" and q': "q' \<in> set (questionsData m')" and cv: "covers q' cx cy"
    for cx cy c q'
  proof (cases "covers q cx cy")
    case False
    with c outside have c0: "cellAt m cx cy = Some c" by simp
    from False cv q' have "q' \<in> set (questionsData m)" by (auto simp: qd')
    from coherent_covered[OF coh c0 this cv] show ?thesis by simp
  next
    case True
    then obtain i where i: "i < ?n" "spanX hz x i = cx" "spanY hz y i = cy" by (auto simp: cov)
    from within[OF i(1)] c i obtain c0 where c0: "cellAt m cx cy = Some c0"
      "letter c0 \<noteq> emptySpace (options G) \<longrightarrow> letter c0 = [q_word q ! i]"
      "c = mark hz [q_word q ! i] c0" by auto
    have lc: "letter c = [q_word q ! i]" using c0(3) by (simp add: flag_mark)
    show ?thesis
    proof (cases "q' = q")
      case True
      with lc charAtCell_span[OF qh qx qy, of i] i show ?thesis by simp
    next
      case False
      with q' have old: "q' \<in> set (questionsData m)" by (auto simp: qd')
      from coherent_covered[OF coh c0(1) old cv] c0(2) lc show ?thesis by auto
    qed
  qed
  show False
    if ij: "i < length (questionsData m')" "j < length (questionsData m')" "i \<noteq> j"
      "q_horizontal (questionsData m' ! i) = q_horizontal (questionsData m' ! j)"
      "covers (questionsData m' ! i) cx cy" "covers (questionsData m' ! j) cx cy"
    for i j cx cy
  proof -
    let ?k = "length (questionsData m)"
    have new_old: False if a: "a < ?k" "covers (questionsData m ! a) cx cy" "covers q cx cy"
      "q_horizontal (questionsData m ! a) = hz" for a
      using oldsame[of "questionsData m ! a" cx cy] a by auto
    have "i < ?k \<and> j < ?k \<or> i = ?k \<and> j < ?k \<or> i < ?k \<and> j = ?k"
      using ij(1,2,3) by (auto simp: qd')
    then show False
    proof (elim disjE conjE)
      assume 1: "i < ?k" "j < ?k"
      with ij coherent_disjoint[OF coh 1(1) 1(2) ij(3), of cx cy] show False
        by (auto simp: qd' nth_append)
    next
      assume 2: "i = ?k" "j < ?k"
      with ij new_old[of j] qh show False by (auto simp: qd' nth_append)
    next
      assume 3: "i < ?k" "j = ?k"
      with ij new_old[of i] qh show False by (auto simp: qd' nth_append)
    qed
  qed
qed

subsection \<open>A successful attempt of \<open>#generateQuestion\<close>\<close>

lemma pickIdx_Some:
  "palabras \<noteq> [] \<Longrightarrow> pickIdx G m palabras n pos = (Some idx, pos') \<Longrightarrow>
   idx \<in> set palabras \<and> idx \<notin> questions m"
proof (induction n arbitrary: pos)
  case 0
  then show ?case by simp
next
  case (Suc n)
  from rand_pick[OF Suc.prems(1), of "random G" pos] Suc show ?case
    by (auto simp: Let_def split: if_splits)
qed

lemma spanStep_fields:
  "s_ok (spanStep G m hz x y i c s) = s_ok s"
  "set (s_matches s) \<subseteq> set (s_matches (spanStep G m hz x y i c s))"
  "letter c \<noteq> emptySpace (options G) \<Longrightarrow>
     letterKey i (letter c) \<in> set (s_matches (spanStep G m hz x y i c s))"
  by (auto simp: spanStep_def Let_def)

lemma spanLoop_ok:
  "spanLoop G m hz x y is s0 = Inr s \<Longrightarrow> s_ok s \<Longrightarrow>
   set (s_matches s0) \<subseteq> set (s_matches s) \<and>
   (\<forall>i \<in> set is. \<exists>c. cellAt m (spanX hz x i) (spanY hz y i) = Some c \<and> \<not> flag hz c \<and>
      (letter c \<noteq> emptySpace (options G) \<longrightarrow> letterKey i (letter c) \<in> set (s_matches s)))"
proof (induction "is" arbitrary: s0)
  case Nil
  then show ?case by simp
next
  case (Cons i "is")
  from Cons.prems obtain c where c: "cellAt m (spanX hz x i) (spanY hz y i) = Some c"
    by (auto split: option.splits)
  have nf: "\<not> flag hz c"
  proof
    assume "flag hz c"
    with Cons.prems c show False by auto
  qed
  with Cons.prems c have r: "spanLoop G m hz x y is (spanStep G m hz x y i c s0) = Inr s" by simp
  from Cons.IH[OF r Cons.prems(2)] have ih:
    "set (s_matches (spanStep G m hz x y i c s0)) \<subseteq> set (s_matches s)"
    "\<forall>i \<in> set is. \<exists>c. cellAt m (spanX hz x i) (spanY hz y i) = Some c \<and> \<not> flag hz c \<and>
      (letter c \<noteq> emptySpace (options G) \<longrightarrow> letterKey i (letter c) \<in> set (s_matches s))"
    by auto
  from ih(1) spanStep_fields(2)[of s0 G m hz x y i c] have 1: "set (s_matches s0) \<subseteq> set (s_matches s)"
    by blast
  from ih(1) spanStep_fields(3)[of c G i m hz x y s0]
  have 2: "letter c \<noteq> emptySpace (options G) \<longrightarrow> letterKey i (letter c) \<in> set (s_matches s)"
    by blast
  from 1 2 c nf ih(2) show ?case by auto
qed

lemma inClass_not_accented:
  "inClass c \<Longrightarrow> c \<noteq> CHR 0xE1 \<and> c \<noteq> CHR 0xE9 \<and> c \<noteq> CHR 0xED \<and> c \<noteq> CHR 0xF3 \<and>
     c \<noteq> CHR 0xFA \<and> c \<noteq> CHR 0xFC"
  by (auto simp: inClass_def Let_def)

lemma normalizeLetter_class: "inClass c \<Longrightarrow> normalizeLetter [c] = [c]"
  using inClass_not_accented[of c] by (simp add: normalizeLetter_def)

lemma compile_bucket_word:
  assumes "cpl = compile ds" "lengthsAt cpl len = Some b" "idx \<in> set b"
  shows "idx < length (words cpl) \<and> accepted (words cpl ! idx) \<and>
         int (length (words cpl ! idx)) = len \<and> idx \<in> bucket cpl (length (words cpl ! idx))"
proof -
  from assms(2,3) have l: "0 \<le> len" "idx \<in> idsAt (lengths cpl) (nat len)"
    by (auto simp: lengthsAt_def idsAt_def split: if_splits)
  from l(2) have "idx < length (words cpl) \<and> accepted (words cpl ! idx) \<and>
      length (words cpl ! idx) = nat len"
    unfolding assms(1) compile_lengths_letters(1) by simp
  with l show ?thesis by (auto simp: bucket_idsAt)
qed

lemma compile_letter_word:
  assumes "cpl = compile ds" "letters cpl (letterKey i [ch]) = Some pm" "idx \<in> set pm"
  shows "i < length (words cpl ! idx) \<and> words cpl ! idx ! i = ch"
proof -
  from assms(2,3) have "idx \<in> idsOf (letters cpl) (letterKey i [ch])" by (simp add: idsOf_def)
  then show ?thesis unfolding assms(1) compile_lengths_letters(2) by (auto simp: letterKey_inj)
qed

lemma addQuestion_fields:
  "rows (addQuestion G m q) = rows m" "questionsData (addQuestion G m q) = questionsData m @ [q]"
  "questions (addQuestion G m q) = insert (q_idx q) (questions m)"
  "finish (addQuestion G m q) = finish m"
  by (simp_all add: addQuestion_def Let_def)

lemma attempt_Placed:
  assumes "attempt G m pos = Inr (Placed m' pos')"
  shows "\<exists>hz len b x y s idx m1.
     len = targetLength G m hz (rand (random G) (pos + 1)) \<and>
     lengthsAt (compilation (options G)) len = Some b \<and> idx \<in> set b \<and>
     spanLoop G m hz x y [0..<nat len]
       \<lparr>s_ok = True, vecinoAdjacente = {}, vecinoCruce = {}, s_matches = []\<rparr> = Inr s \<and> s_ok s \<and>
     (s_matches s \<noteq> [] \<longrightarrow> satisfies (compilation (options G)) (s_matches s) idx) \<and>
     idx < length (words (compilation (options G))) \<and>
     writeWord m hz x y (\<lambda>i. normalizeLetter (charAt (words (compilation (options G)) ! idx) i))
       [0..<nat len] = Inr m1 \<and>
     m' = addQuestion G m1 \<lparr>q_idx = idx, q_word = words (compilation (options G)) ! idx,
            q_horizontal = hz, q_x = x, q_y = y\<rparr>"
proof -
  define hz where "hz = (\<lfloor>rand (random G) pos * 2\<rfloor> = 1)"
  define len where "len = targetLength G m hz (rand (random G) (pos + 1))"
  define cpl where "cpl = compilation (options G)"
  from assms obtain b where b: "lengthsAt cpl len = Some b"
    by (auto simp: attempt_def Let_def hz_def len_def cpl_def split: option.splits)
  define palabras where "palabras = filter (\<lambda>palabra. palabra \<notin> ignored G) b"
  define x where "x = fst (startPosition G m hz len (rand (random G) (pos + 2)) (rand (random G) (pos + 3)))"
  define y where "y = snd (startPosition G m hz len (rand (random G) (pos + 2)) (rand (random G) (pos + 3)))"
  define s0 where "s0 = \<lparr>s_ok = True, vecinoAdjacente = {}, vecinoCruce = {}, s_matches = []\<rparr>"
  define sf where "sf = \<lparr>s_ok = False, vecinoAdjacente = {}, vecinoCruce = {}, s_matches = []\<rparr>"
  have a1: "attempt G m pos =
    (case endsBlocked G m hz len x y of
       Inl e \<Rightarrow> Inl e
     | Inr blocked \<Rightarrow>
        (case (if blocked then Inr sf else spanLoop G m hz x y [0..<nat len] s0) of
           Inl e \<Rightarrow> Inl e
         | Inr s \<Rightarrow>
            (if s_ok s \<and> vecinoAdjacente s - vecinoCruce s = {} then
               (let palabras' = (if s_matches s \<noteq> [] then filter (satisfies cpl (s_matches s)) palabras
                                else palabras);
                    ok = (s_matches s \<noteq> [] \<or> \<not> (wordsOnBorder (options G) \<noteq> 0 \<and> borde m))
                in if ok \<and> palabras' \<noteq> [] then
                     (case pickIdx G m palabras' 100 (pos + 4) of
                        (None, pos') \<Rightarrow> Inr (Failed pos')
                      | (Some idx, pos') \<Rightarrow> placeChosen G m hz len x y idx pos')
                   else Inr (Failed (pos + 4)))
             else Inr (Failed (pos + 4)))))"
    using b unfolding attempt_def Let_def hz_def[symmetric] len_def[symmetric] cpl_def[symmetric]
      palabras_def x_def y_def s0_def sf_def
    by simp
  from assms a1 obtain blocked where bl: "endsBlocked G m hz len x y = Inr blocked"
    by (auto split: sum.splits)
  from assms a1 bl obtain s where s: "(if blocked then Inr sf else spanLoop G m hz x y [0..<nat len] s0) = Inr s"
    by (auto split: sum.splits)
  from assms a1 bl s have ok: "s_ok s"
    by (auto split: if_splits)
  have nb: "\<not> blocked"
  proof
    assume blocked
    with s have "s = sf" by simp
    with ok show False by (simp add: sf_def)
  qed
  with s have sl: "spanLoop G m hz x y [0..<nat len] s0 = Inr s" by simp
  define palabras' where "palabras' = (if s_matches s \<noteq> [] then filter (satisfies cpl (s_matches s)) palabras
                                else palabras)"
  from assms a1 bl s ok have ne: "palabras' \<noteq> []"
    by (auto simp: Let_def palabras'_def split: if_splits)
  from assms a1 bl s ok ne obtain idx p where
    pk: "pickIdx G m palabras' 100 (pos + 4) = (Some idx, p)"
    and pc: "placeChosen G m hz len x y idx p = Inr (Placed m' pos')"
    by (auto simp: Let_def palabras'_def[symmetric] split: if_splits prod.splits option.splits)
  from pickIdx_Some[OF ne pk] have ip: "idx \<in> set palabras'" by simp
  then have ib: "idx \<in> set b" by (auto simp: palabras'_def palabras_def split: if_splits)
  from ip have sat: "s_matches s \<noteq> [] \<longrightarrow> satisfies cpl (s_matches s) idx"
    by (auto simp: palabras'_def)
  from pc have il: "idx < length (words cpl)"
    by (auto simp: placeChosen_def Let_def cpl_def split: if_splits)
  with pc obtain m1 where
    w: "writeWord m hz x y (\<lambda>i. normalizeLetter (charAt (words cpl ! idx) i)) [0..<nat len] = Inr m1"
    and m': "m' = addQuestion G m1 \<lparr>q_idx = idx, q_word = words cpl ! idx,
            q_horizontal = hz, q_x = x, q_y = y\<rparr>"
    by (auto simp: placeChosen_def Let_def cpl_def split: if_splits sum.splits)
  from len_def b ib sl ok sat il w m' show ?thesis
    unfolding cpl_def s0_def by blast
qed

lemma coherent_nonempty_single:
  assumes "coherent G m" "cellAt m cx cy = Some c" "letter c \<noteq> emptySpace (options G)"
  shows "\<exists>ch. letter c = [ch]"
proof -
  from coherent_cellD[OF assms(1,2)] assms(3) obtain q where
    "q \<in> set (questionsData m)" "covers q cx cy" by blast
  from coherent_covered[OF assms(1,2) this] show ?thesis by blast
qed

lemma satisfies_member:
  "satisfies cpl ms idx \<Longrightarrow> k \<in> set ms \<Longrightarrow> \<exists>pm. letters cpl k = Some pm \<and> idx \<in> set pm"
  by (auto simp: satisfies_def split: option.splits)

lemma attempt_coherent:
  assumes coh: "coherent G m" and cpl: "compilation (options G) = compile ds"
    and mk: "markerApart (options G)" and att: "attempt G m pos = Inr (Placed m' pos')"
  shows "coherent G m' \<and>
    (\<exists>q. questionsData m' = questionsData m @ [q] \<and>
       int (length (q_word q)) = targetLength G m (q_horizontal q) (rand (random G) (pos + 1)))"
proof -
  let ?cpl = "compilation (options G)"
  from attempt_Placed[OF att] obtain hz len b x y s idx m1 where
    len: "len = targetLength G m hz (rand (random G) (pos + 1))"
    and b: "lengthsAt ?cpl len = Some b" and ib: "idx \<in> set b"
    and sl: "spanLoop G m hz x y [0..<nat len]
       \<lparr>s_ok = True, vecinoAdjacente = {}, vecinoCruce = {}, s_matches = []\<rparr> = Inr s"
    and ok: "s_ok s"
    and sat: "s_matches s \<noteq> [] \<longrightarrow> satisfies ?cpl (s_matches s) idx"
    and il: "idx < length (words ?cpl)"
    and wr: "writeWord m hz x y (\<lambda>i. normalizeLetter (charAt (words ?cpl ! idx) i))
       [0..<nat len] = Inr m1"
    and m': "m' = addQuestion G m1 \<lparr>q_idx = idx, q_word = words ?cpl ! idx,
            q_horizontal = hz, q_x = x, q_y = y\<rparr>"
    by blast
  let ?word = "words ?cpl ! idx"
  let ?q = "\<lparr>q_idx = idx, q_word = ?word, q_horizontal = hz, q_x = x, q_y = y\<rparr>"
  have c1: "?cpl = compile ds" by (rule cpl)
  from compile_bucket_word[OF c1 b ib] have w: "accepted ?word" "int (length ?word) = len"
    "idx \<in> bucket ?cpl (length ?word)" by auto
  from w(1) have cls: "\<forall>c \<in> set ?word. inClass c" and l1: "1 < length ?word"
    by (auto simp: accepted_iff)
  from w(2) have nl: "nat len = length ?word" by simp
  have pf: "placedFrom ?cpl ?q" using il w(3) by (simp add: placedFrom_def)
  have span: "\<forall>i < length (q_word ?q). \<exists>c. cellAt m (spanX hz x i) (spanY hz y i) = Some c \<and>
        \<not> flag hz c \<and> (letter c \<noteq> emptySpace (options G) \<longrightarrow> letter c = [q_word ?q ! i])"
  proof (intro allI impI)
    fix i assume "i < length (q_word ?q)"
    then have i: "i \<in> set [0..<nat len]" using nl by simp
    from spanLoop_ok[OF sl ok] i obtain c where
      c: "cellAt m (spanX hz x i) (spanY hz y i) = Some c" "\<not> flag hz c"
         "letter c \<noteq> emptySpace (options G) \<longrightarrow> letterKey i (letter c) \<in> set (s_matches s)"
      by blast
    have "letter c = [?word ! i]" if ne: "letter c \<noteq> emptySpace (options G)"
    proof -
      from c(3) ne have k: "letterKey i (letter c) \<in> set (s_matches s)" by simp
      then have "s_matches s \<noteq> []" by auto
      with sat have "satisfies ?cpl (s_matches s) idx" by simp
      from satisfies_member[OF this k] obtain pm where
        pm: "letters ?cpl (letterKey i (letter c)) = Some pm" "idx \<in> set pm" by blast
      from coherent_nonempty_single[OF coh c(1) ne] obtain ch where ch: "letter c = [ch]" by blast
      from compile_letter_word[OF c1 pm(1)[unfolded ch] pm(2)] ch show ?thesis by simp
    qed
    with c show "\<exists>c. cellAt m (spanX hz x i) (spanY hz y i) = Some c \<and>
        \<not> flag hz c \<and> (letter c \<noteq> emptySpace (options G) \<longrightarrow> letter c = [q_word ?q ! i])"
      by auto
  qed
  have letra: "\<forall>i < length (q_word ?q). normalizeLetter (charAt (words ?cpl ! idx) i) = [q_word ?q ! i]"
    using cls by (auto simp: charAt_def normalizeLetter_class)
  have wr': "writeWord m hz x y (\<lambda>i. normalizeLetter (charAt (words ?cpl ! idx) i))
       [0..<length (q_word ?q)] = Inr m1" using wr nl by simp
  have "coherent G m'"
    by (rule coherent_place[OF coh mk pf _ _ span _ _ _ wr' letra])
       (use cls l1 writeWord_fields2[OF wr] in \<open>auto simp: m' addQuestion_fields\<close>)
  moreover have "questionsData m' = questionsData m @ [?q]"
    using writeWord_fields2[OF wr] by (simp add: m' addQuestion_fields)
  moreover have "int (length (q_word ?q)) = targetLength G m (q_horizontal ?q) (rand (random G) (pos + 1))"
    using w(2) len by simp
  ultimately show ?thesis by blast
qed

subsection \<open>The new matrix and the selection\<close>

lemma generate_coherent: "coherent G (generate G)"
proof (rule coherentI)
  show "map length (rows (generate G)) = replicate (height (options G)) (width (options G))"
    by (simp add: generate_def Let_def)
  have cell: "c = \<lparr>letter = emptySpace (options G), inVertical = False, inHorizontal = False\<rparr>"
    if "cellAt (generate G) cx cy = Some c" for cx cy c
    using that by (auto simp: cellAt_Some generate_def Let_def)
  show "flag hz c = (\<exists>q \<in> set (questionsData (generate G)). q_horizontal q = hz \<and> covers q cx cy)"
    if "cellAt (generate G) cx cy = Some c" for cx cy c hz
    using cell[OF that] by (simp add: flag_def generate_def Let_def)
  show "letter c \<noteq> emptySpace (options G) \<longleftrightarrow> inHorizontal c \<or> inVertical c"
    if "cellAt (generate G) cx cy = Some c" for cx cy c
    using cell[OF that] by simp
qed (simp_all add: generate_def Let_def)

lemma annotate_fields:
  "rows (annotate G m) = rows m" "questionsData (annotate G m) = questionsData m"
  "questions (annotate G m) = questions m"
  by (simp_all add: annotate_def Let_def split: prod.splits)

lemma selectSolutions_subset:
  "set (selectSolutions G sols n) \<subseteq> annotate G ` set sols"
proof -
  have "set (snd (foldl addUnique st xs)) \<subseteq> set (snd st) \<union> set xs" for st xs
  proof (induction xs arbitrary: st)
    case Nil
    show ?case by simp
  next
    case (Cons x xs)
    from Cons[of "addUnique st x"] show ?case
      by (cases st) (auto simp: addUnique_def split: if_splits)
  qed
  from this[of "([], [])" "map (annotate G) sols"]
  show ?thesis
    by (auto simp: selectSolutions_def Let_def set_sortWith dest!: in_set_takeD)
qed

subsection \<open>The runs found by the four scans\<close>

text \<open>
  Every cell between the start of a scan and the end it returns is in the grid and
  belongs to no word of the orientation of the run; it belongs to a word of the other
  orientation only if it is the end itself and the collision flag is set.
\<close>

lemma scanLeft_run:
  "scanLeft G m y x0 = Inr (r, coll) \<Longrightarrow> r \<le> k \<Longrightarrow> k \<le> x0 \<Longrightarrow>
   \<exists>c. cellAt m k y = Some c \<and> \<not> inHorizontal c \<and> (inVertical c \<longrightarrow> k = r \<and> coll)"
proof (induction G m y x0 rule: scanLeft.induct)
  case (1 G m y x1)
  show ?case
  proof (cases "x1 < 0")
    case True
    with "1.prems" show ?thesis by (simp add: scanLeft.simps[of G m y x1])
  next
    case nn: False
    from "1.prems"(1) nn obtain c where c: "cellAt m x1 y = Some c"
      by (auto simp: scanLeft.simps[of G m y x1] split: option.splits)
    show ?thesis
    proof (cases "inHorizontal c")
      case True
      with "1.prems" nn c show ?thesis by (simp add: scanLeft.simps[of G m y x1])
    next
      case nh: False
      show ?thesis
      proof (cases "inVertical c")
        case True
        with "1.prems" nn c nh show ?thesis by (auto simp: scanLeft.simps[of G m y x1])
      next
        case nv: False
        show ?thesis
        proof (cases "above G m x1 y")
          case (Inl e)
          with "1.prems" nn c nh nv show ?thesis by (simp add: scanLeft.simps[of G m y x1])
        next
          case (Inr a)
          show ?thesis
          proof (cases a)
            case True
            with "1.prems" nn c nh nv Inr show ?thesis
              by (simp add: scanLeft.simps[of G m y x1])
          next
            case na: False
            show ?thesis
            proof (cases "below G m x1 y")
              case (Inl e)
              with "1.prems" nn c nh nv Inr na show ?thesis
                by (simp add: scanLeft.simps[of G m y x1])
            next
              case ib: (Inr b)
              show ?thesis
              proof (cases b)
                case True
                with "1.prems" nn c nh nv Inr na ib show ?thesis
                  by (simp add: scanLeft.simps[of G m y x1])
              next
                case nb: False
                from "1.prems"(1) nn c nh nv Inr na ib nb
                have rec: "scanLeft G m y (x1 - 1) = Inr (r, coll)"
                  by (simp add: scanLeft.simps[of G m y x1])
                show ?thesis
                proof (cases "k = x1")
                  case True
                  with c nh nv show ?thesis by simp
                next
                  case False
                  with "1.prems"(2,3) have kl: "k \<le> x1 - 1" by simp
                  from na nb have ab: "a = False" "b = False" by simp_all
                  from "1.IH"[OF nn c nh nv Inr ab(1) ib ab(2) rec "1.prems"(2) kl]
                  show ?thesis .
                qed
              qed
            qed
          qed
        qed
      qed
    qed
  qed
qed

lemma scanRight_run:
  "scanRight G m y x0 = Inr (r, coll) \<Longrightarrow> x0 \<le> k \<Longrightarrow> k \<le> r \<Longrightarrow>
   \<exists>c. cellAt m k y = Some c \<and> \<not> inHorizontal c \<and> (inVertical c \<longrightarrow> k = r \<and> coll)"
proof (induction G m y x0 rule: scanRight.induct)
  case (1 G m y x1)
  show ?case
  proof (cases "x1 \<ge> int (width (options G))")
    case True
    with "1.prems" show ?thesis by (simp add: scanRight.simps[of G m y x1])
  next
    case nn: False
    from "1.prems"(1) nn obtain c where c: "cellAt m x1 y = Some c"
      by (auto simp: scanRight.simps[of G m y x1] split: option.splits)
    show ?thesis
    proof (cases "inHorizontal c")
      case True
      with "1.prems" nn c show ?thesis by (simp add: scanRight.simps[of G m y x1])
    next
      case nh: False
      show ?thesis
      proof (cases "inVertical c")
        case True
        with "1.prems" nn c nh show ?thesis by (auto simp: scanRight.simps[of G m y x1])
      next
        case nv: False
        show ?thesis
        proof (cases "above G m x1 y")
          case (Inl e)
          with "1.prems" nn c nh nv show ?thesis by (simp add: scanRight.simps[of G m y x1])
        next
          case (Inr a)
          show ?thesis
          proof (cases a)
            case True
            with "1.prems" nn c nh nv Inr show ?thesis
              by (simp add: scanRight.simps[of G m y x1])
          next
            case na: False
            show ?thesis
            proof (cases "below G m x1 y")
              case (Inl e)
              with "1.prems" nn c nh nv Inr na show ?thesis
                by (simp add: scanRight.simps[of G m y x1])
            next
              case ib: (Inr b)
              show ?thesis
              proof (cases b)
                case True
                with "1.prems" nn c nh nv Inr na ib show ?thesis
                  by (simp add: scanRight.simps[of G m y x1])
              next
                case nb: False
                from "1.prems"(1) nn c nh nv Inr na ib nb
                have rec: "scanRight G m y (x1 + 1) = Inr (r, coll)"
                  by (simp add: scanRight.simps[of G m y x1])
                show ?thesis
                proof (cases "k = x1")
                  case True
                  with c nh nv show ?thesis by simp
                next
                  case False
                  with "1.prems"(2,3) have kl: "x1 + 1 \<le> k" by simp
                  from na nb have ab: "a = False" "b = False" by simp_all
                  from "1.IH"[OF nn c nh nv Inr ab(1) ib ab(2) rec kl "1.prems"(3)]
                  show ?thesis .
                qed
              qed
            qed
          qed
        qed
      qed
    qed
  qed
qed

lemma scanUp_run:
  "scanUp G m x y0 = Inr (r, coll) \<Longrightarrow> r \<le> k \<Longrightarrow> k \<le> y0 \<Longrightarrow>
   \<exists>c. cellAt m x k = Some c \<and> \<not> inVertical c \<and> (inHorizontal c \<longrightarrow> k = r \<and> coll)"
proof (induction G m x y0 rule: scanUp.induct)
  case (1 G m x y1)
  show ?case
  proof (cases "y1 < 0")
    case True
    with "1.prems" show ?thesis by (simp add: scanUp.simps[of G m x y1])
  next
    case nn: False
    from "1.prems"(1) nn obtain c where c: "cellAt m x y1 = Some c"
      by (auto simp: scanUp.simps[of G m x y1] split: option.splits)
    show ?thesis
    proof (cases "inVertical c")
      case True
      with "1.prems" nn c show ?thesis by (simp add: scanUp.simps[of G m x y1])
    next
      case nh: False
      show ?thesis
      proof (cases "inHorizontal c")
        case True
        with "1.prems" nn c nh show ?thesis by (auto simp: scanUp.simps[of G m x y1])
      next
        case nv: False
        show ?thesis
        proof (cases "leftOf G m x y1")
          case (Inl e)
          with "1.prems" nn c nh nv show ?thesis by (simp add: scanUp.simps[of G m x y1])
        next
          case (Inr a)
          show ?thesis
          proof (cases a)
            case True
            with "1.prems" nn c nh nv Inr show ?thesis
              by (simp add: scanUp.simps[of G m x y1])
          next
            case na: False
            show ?thesis
            proof (cases "rightOf G m x y1")
              case (Inl e)
              with "1.prems" nn c nh nv Inr na show ?thesis
                by (simp add: scanUp.simps[of G m x y1])
            next
              case ib: (Inr b)
              show ?thesis
              proof (cases b)
                case True
                with "1.prems" nn c nh nv Inr na ib show ?thesis
                  by (simp add: scanUp.simps[of G m x y1])
              next
                case nb: False
                from "1.prems"(1) nn c nh nv Inr na ib nb
                have rec: "scanUp G m x (y1 - 1) = Inr (r, coll)"
                  by (simp add: scanUp.simps[of G m x y1])
                show ?thesis
                proof (cases "k = y1")
                  case True
                  with c nh nv show ?thesis by simp
                next
                  case False
                  with "1.prems"(2,3) have kl: "k \<le> y1 - 1" by simp
                  from na nb have ab: "a = False" "b = False" by simp_all
                  from "1.IH"[OF nn c nh nv Inr ab(1) ib ab(2) rec "1.prems"(2) kl]
                  show ?thesis .
                qed
              qed
            qed
          qed
        qed
      qed
    qed
  qed
qed

lemma scanDown_run:
  "scanDown G m x y0 = Inr (r, coll) \<Longrightarrow> y0 \<le> k \<Longrightarrow> k \<le> r \<Longrightarrow>
   \<exists>c. cellAt m x k = Some c \<and> \<not> inVertical c \<and> (inHorizontal c \<longrightarrow> k = r \<and> coll)"
proof (induction G m x y0 rule: scanDown.induct)
  case (1 G m x y1)
  show ?case
  proof (cases "y1 \<ge> int (height (options G))")
    case True
    with "1.prems" show ?thesis by (simp add: scanDown.simps[of G m x y1])
  next
    case nn: False
    from "1.prems"(1) nn obtain c where c: "cellAt m x y1 = Some c"
      by (auto simp: scanDown.simps[of G m x y1] split: option.splits)
    show ?thesis
    proof (cases "inVertical c")
      case True
      with "1.prems" nn c show ?thesis by (simp add: scanDown.simps[of G m x y1])
    next
      case nh: False
      show ?thesis
      proof (cases "inHorizontal c")
        case True
        with "1.prems" nn c nh show ?thesis by (auto simp: scanDown.simps[of G m x y1])
      next
        case nv: False
        show ?thesis
        proof (cases "leftOf G m x y1")
          case (Inl e)
          with "1.prems" nn c nh nv show ?thesis by (simp add: scanDown.simps[of G m x y1])
        next
          case (Inr a)
          show ?thesis
          proof (cases a)
            case True
            with "1.prems" nn c nh nv Inr show ?thesis
              by (simp add: scanDown.simps[of G m x y1])
          next
            case na: False
            show ?thesis
            proof (cases "rightOf G m x y1")
              case (Inl e)
              with "1.prems" nn c nh nv Inr na show ?thesis
                by (simp add: scanDown.simps[of G m x y1])
            next
              case ib: (Inr b)
              show ?thesis
              proof (cases b)
                case True
                with "1.prems" nn c nh nv Inr na ib show ?thesis
                  by (simp add: scanDown.simps[of G m x y1])
              next
                case nb: False
                from "1.prems"(1) nn c nh nv Inr na ib nb
                have rec: "scanDown G m x (y1 + 1) = Inr (r, coll)"
                  by (simp add: scanDown.simps[of G m x y1])
                show ?thesis
                proof (cases "k = y1")
                  case True
                  with c nh nv show ?thesis by simp
                next
                  case False
                  with "1.prems"(2,3) have kl: "y1 + 1 \<le> k" by simp
                  from na nb have ab: "a = False" "b = False" by simp_all
                  from "1.IH"[OF nn c nh nv Inr ab(1) ib ab(2) rec kl "1.prems"(3)]
                  show ?thesis .
                qed
              qed
            qed
          qed
        qed
      qed
    qed
  qed
qed

lemma horizontalPoints_valid:
  assumes "horizontalPoints G m x y = Inr pts" "pt \<in> set pts"
  shows "validPoint m pt"
proof -
  from assms(1) obtain x1 c1 x2 c2 where
    l: "scanLeft G m y x = Inr (x1, c1)" and r: "scanRight G m y x = Inr (x2, c2)"
    by (auto simp: horizontalPoints_def split: sum.splits)
  from assms l r have lt: "x1 < x2"
    and pt: "pt = \<lparr>p_x = x1, p_y = y, p_size = x2 + 1 - x1, p_horizontal = True\<rparr>"
    by (auto simp: horizontalPoints_def split: if_splits)
  have "\<exists>c. cellAt m (x1 + int i) y = Some c \<and> \<not> inHorizontal c \<and>
          (inVertical c \<longrightarrow> i = 0 \<or> int i = x2 + 1 - x1 - 1)"
    if i: "i < nat (x2 + 1 - x1)" for i
  proof (cases "x1 + int i \<le> x")
    case True
    from scanLeft_run[OF l _ True] show ?thesis by auto
  next
    case False
    then have a: "x \<le> x1 + int i" by simp
    from i have b: "x1 + int i \<le> x2" by simp
    from scanRight_run[OF r a b] show ?thesis by auto
  qed
  with lt show ?thesis by (simp add: validPoint_def pt spanX_def spanY_def flag_def)
qed

lemma verticalPoints_valid:
  assumes "verticalPoints G m x y = Inr pts" "pt \<in> set pts"
  shows "validPoint m pt"
proof -
  from assms(1) obtain y1 c1 y2 c2 where
    l: "scanUp G m x y = Inr (y1, c1)" and r: "scanDown G m x y = Inr (y2, c2)"
    by (auto simp: verticalPoints_def split: sum.splits)
  from assms l r have lt: "y1 < y2"
    and pt: "pt = \<lparr>p_x = x, p_y = y1, p_size = y2 + 1 - y1, p_horizontal = False\<rparr>"
    by (auto simp: verticalPoints_def split: if_splits)
  have "\<exists>c. cellAt m x (y1 + int i) = Some c \<and> \<not> inVertical c \<and>
          (inHorizontal c \<longrightarrow> i = 0 \<or> int i = y2 + 1 - y1 - 1)"
    if i: "i < nat (y2 + 1 - y1)" for i
  proof (cases "y1 + int i \<le> y")
    case True
    from scanUp_run[OF l _ True] show ?thesis by auto
  next
    case False
    then have a: "y \<le> y1 + int i" by simp
    from i have b: "y1 + int i \<le> y2" by simp
    from scanDown_run[OF r a b] show ?thesis by auto
  qed
  with lt show ?thesis by (simp add: validPoint_def pt spanX_def spanY_def flag_def)
qed

lemma collectPoints_valid:
  "collectPoints G m cells acc = Inr pts \<Longrightarrow> \<forall>pt \<in> set acc. validPoint m pt \<Longrightarrow>
   \<forall>pt \<in> set pts. validPoint m pt"
proof (induction cells arbitrary: acc)
  case Nil
  then show ?case by simp
next
  case (Cons xy cells)
  from Cons.prems(1) obtain c where c: "cellAt m (fst xy) (snd xy) = Some c"
    by (auto split: option.splits)
  show ?case
  proof (cases "letter c = emptySpace (options G)")
    case False
    with Cons.prems c have "collectPoints G m cells acc = Inr pts" by simp
    from Cons.IH[OF this Cons.prems(2)] show ?thesis .
  next
    case True
    with Cons.prems(1) c obtain hs vs where
      h: "horizontalPoints G m (fst xy) (snd xy) = Inr hs"
      and v: "verticalPoints G m (fst xy) (snd xy) = Inr vs"
      and r: "collectPoints G m cells (acc @ hs @ vs) = Inr pts"
      by (auto split: sum.splits)
    have "\<forall>pt \<in> set (acc @ hs @ vs). validPoint m pt"
      using Cons.prems(2) horizontalPoints_valid[OF h] verticalPoints_valid[OF v] by auto
    from Cons.IH[OF r this] show ?thesis .
  qed
qed

subsection \<open>Filling a point\<close>

lemma showInt_nat: "0 \<le> n \<Longrightarrow> showInt n @ l = letterKey (nat n) l"
  by (simp add: showInt_def letterKey_def)

lemma set_setAdd: "set (setAdd xs v) = insert v (set xs)"
  by (auto simp: setAdd_def)

lemma pointMatches_keys:
  assumes "pointMatches G m pt = Inr ms" "1 \<le> p_size pt"
  shows "\<exists>c0 c1. cellAt m (p_x pt) (p_y pt) = Some c0 \<and>
     cellAt m (spanX (p_horizontal pt) (p_x pt) (nat (p_size pt - 1)))
              (spanY (p_horizontal pt) (p_y pt) (nat (p_size pt - 1))) = Some c1 \<and>
     (letter c0 \<noteq> emptySpace (options G) \<longrightarrow> letterKey 0 (letter c0) \<in> set ms) \<and>
     (letter c1 \<noteq> emptySpace (options G) \<longrightarrow>
        letterKey (nat (p_size pt - 1)) (letter c1) \<in> set ms)"
proof -
  have e: "(if p_horizontal pt then p_x pt + p_size pt - 1 else p_x pt) =
        spanX (p_horizontal pt) (p_x pt) (nat (p_size pt - 1))"
      "(if p_horizontal pt then p_y pt else p_y pt + p_size pt - 1) =
        spanY (p_horizontal pt) (p_y pt) (nat (p_size pt - 1))"
    using assms(2) by (auto simp: spanX_def spanY_def)
  from assms(1) obtain c0 c1 where
    c0: "cellAt m (p_x pt) (p_y pt) = Some c0"
    and c1: "cellAt m (spanX (p_horizontal pt) (p_x pt) (nat (p_size pt - 1)))
              (spanY (p_horizontal pt) (p_y pt) (nat (p_size pt - 1))) = Some c1"
    unfolding pointMatches_def Let_def e by (auto split: option.splits)
  from assms c0 c1 have
    "ms = (let ms0 = (if letter c0 \<noteq> emptySpace (options G)
                           then setAdd [] (showInt 0 @ letter c0) else [])
                in (if letter c1 \<noteq> emptySpace (options G)
                        then setAdd ms0 (showInt (p_size pt - 1) @ letter c1) else ms0))"
    unfolding pointMatches_def Let_def e by simp
  then have
    "(letter c0 \<noteq> emptySpace (options G) \<longrightarrow> letterKey 0 (letter c0) \<in> set ms) \<and>
     (letter c1 \<noteq> emptySpace (options G) \<longrightarrow>
        letterKey (nat (p_size pt - 1)) (letter c1) \<in> set ms)"
    using assms(2) showInt_nat[of 0] showInt_nat[of "p_size pt - 1"]
    by (auto simp: Let_def set_setAdd)
  with c0 c1 show ?thesis by blast
qed

lemma narrow_member:
  "idx \<in> set (narrow cpl ws k) \<Longrightarrow> idx \<in> set ws \<and> (\<exists>pm. letters cpl k = Some pm \<and> idx \<in> set pm)"
  by (cases "letters cpl k") (auto simp: narrow_def)

lemma foldl_narrow_member:
  "idx \<in> set (foldl (narrow cpl) ws ms) \<Longrightarrow>
   idx \<in> set ws \<and> (\<forall>k \<in> set ms. \<exists>pm. letters cpl k = Some pm \<and> idx \<in> set pm)"
proof (induction ms arbitrary: ws)
  case Nil
  then show ?case by simp
next
  case (Cons k ms)
  from Cons.prems have "idx \<in> set (foldl (narrow cpl) (narrow cpl ws k) ms)" by simp
  from Cons.IH[OF this] narrow_member[of idx cpl ws k] show ?case by auto
qed

lemma candidates_member:
  assumes "candidates G m pt ms = Some ws" "idx \<in> set ws"
  shows "\<exists>b. lengthsAt (compilation (options G)) (p_size pt) = Some b \<and> idx \<in> set b \<and>
     (\<forall>k \<in> set ms. \<exists>pm. letters (compilation (options G)) k = Some pm \<and> idx \<in> set pm)"
proof -
  from assms(1) obtain b where b: "lengthsAt (compilation (options G)) (p_size pt) = Some b"
    and w: "ws = filter (\<lambda>w. w \<notin> questions m)
          (foldl (narrow (compilation (options G))) (filter (\<lambda>w. w \<notin> ignored G) b) ms)"
    by (auto simp: candidates_def Let_def split: option.splits)
  from assms(2) w have "idx \<in> set (foldl (narrow (compilation (options G)))
      (filter (\<lambda>w. w \<notin> ignored G) b) ms)" by simp
  from foldl_narrow_member[OF this] b show ?thesis by auto
qed

lemma fillPoint_coherent:
  assumes coh: "coherent G m" and cpl: "compilation (options G) = compile ds"
    and mk: "markerApart (options G)" and vp: "validPoint m pt"
    and pm: "pointMatches G m pt = Inr ms" and ca: "candidates G m pt ms = Some ws"
    and ne: "ws \<noteq> []" and fp: "fillPoint G mr m pt ws mpos = Inr m'"
  shows "coherent G m' \<and>
    (\<exists>q. questionsData m' = questionsData m @ [q] \<and> int (length (q_word q)) = p_size pt \<and>
         q_x q = p_x pt \<and> q_y q = p_y pt \<and> q_horizontal q = p_horizontal pt)"
proof -
  let ?cpl = "compilation (options G)"
  let ?hz = "p_horizontal pt"
  define idx where "idx = ws ! nat \<lfloor>rand mr mpos * of_nat (length ws)\<rfloor>"
  have iw: "idx \<in> set ws" unfolding idx_def by (rule rand_pick[OF ne])
  from candidates_member[OF ca iw] obtain b where
    b: "lengthsAt ?cpl (p_size pt) = Some b" "idx \<in> set b"
    and keys: "\<forall>k \<in> set ms. \<exists>pm. letters ?cpl k = Some pm \<and> idx \<in> set pm" by blast
  let ?word = "words ?cpl ! idx"
  let ?q = "\<lparr>q_idx = idx, q_word = ?word, q_horizontal = ?hz, q_x = p_x pt, q_y = p_y pt\<rparr>"
  have cp: "?cpl = compile ds" by (rule cpl)
  from compile_bucket_word[OF cp b] have w: "idx < length (words ?cpl)" "accepted ?word"
    "int (length ?word) = p_size pt" "idx \<in> bucket ?cpl (length ?word)" by auto
  from w(2) have cls: "\<forall>c \<in> set ?word. inClass c" and l1: "1 < length ?word"
    by (auto simp: accepted_iff)
  from w(3) have nl: "nat (p_size pt) = length ?word" by simp
  from fp w(1) obtain m1 where
    wr: "writeWord m ?hz (p_x pt) (p_y pt) (\<lambda>i. [?word ! i]) [0..<length ?word] = Inr m1"
    and m': "m' = m1\<lparr>questions := insert idx (questions m1),
        questionsData := questionsData m1 @ [?q]\<rparr>"
    by (auto simp: fillPoint_def Let_def idx_def[symmetric] split: sum.splits)
  have pf: "placedFrom ?cpl ?q" using w by (simp add: placedFrom_def)
  from vp l1 w(3) have sz: "1 \<le> p_size pt" by simp
  from pointMatches_keys[OF pm sz] obtain c0 c1 where
    c0: "cellAt m (p_x pt) (p_y pt) = Some c0"
    and c1: "cellAt m (spanX ?hz (p_x pt) (nat (p_size pt - 1)))
              (spanY ?hz (p_y pt) (nat (p_size pt - 1))) = Some c1"
    and k0: "letter c0 \<noteq> emptySpace (options G) \<longrightarrow> letterKey 0 (letter c0) \<in> set ms"
    and k1: "letter c1 \<noteq> emptySpace (options G) \<longrightarrow>
        letterKey (nat (p_size pt - 1)) (letter c1) \<in> set ms" by blast
  have start: "spanX ?hz (p_x pt) 0 = p_x pt" "spanY ?hz (p_y pt) 0 = p_y pt"
    by (simp_all add: spanX_def spanY_def)
  have keyed: "letter c = [?word ! i]"
    if c: "cellAt m (spanX ?hz (p_x pt) i) (spanY ?hz (p_y pt) i) = Some c"
      and ne: "letter c \<noteq> emptySpace (options G)"
      and k: "letterKey i (letter c) \<in> set ms" for i c
  proof -
    from keys k obtain pm where pm: "letters ?cpl (letterKey i (letter c)) = Some pm" "idx \<in> set pm"
      by blast
    from coherent_nonempty_single[OF coh c ne] obtain ch where ch: "letter c = [ch]" by blast
    from compile_letter_word[OF cp pm(1)[unfolded ch] pm(2)] ch show ?thesis by simp
  qed
  have span: "\<forall>i < length (q_word ?q). \<exists>c. cellAt m (spanX ?hz (p_x pt) i) (spanY ?hz (p_y pt) i) = Some c \<and>
        \<not> flag ?hz c \<and> (letter c \<noteq> emptySpace (options G) \<longrightarrow> letter c = [q_word ?q ! i])"
  proof (intro allI impI)
    fix i assume "i < length (q_word ?q)"
    then have i: "i < nat (p_size pt)" using nl by simp
    with vp obtain c where c: "cellAt m (spanX ?hz (p_x pt) i) (spanY ?hz (p_y pt) i) = Some c"
      "\<not> flag ?hz c" "flag (\<not> ?hz) c \<longrightarrow> i = 0 \<or> int i = p_size pt - 1"
      unfolding validPoint_def by blast
    have "letter c = [?word ! i]" if ne: "letter c \<noteq> emptySpace (options G)"
    proof -
      from coherent_letter[OF coh c(1)] ne have "inHorizontal c \<or> inVertical c" by simp
      with c(2) have "flag (\<not> ?hz) c" by (auto simp: flag_def split: if_splits)
      with c(3) have "i = 0 \<or> i = nat (p_size pt - 1)" by auto
      then show ?thesis
      proof
        assume z: "i = 0"
        with c(1) c0 have "c = c0" by (simp add: start)
        with k0 ne z have "letterKey i (letter c) \<in> set ms" by simp
        from keyed[OF c(1) ne this] show ?thesis .
      next
        assume z: "i = nat (p_size pt - 1)"
        with c(1) c1 have "c = c1" by simp
        with k1 ne z have "letterKey i (letter c) \<in> set ms" by simp
        from keyed[OF c(1) ne this] show ?thesis .
      qed
    qed
    with c show "\<exists>c. cellAt m (spanX ?hz (p_x pt) i) (spanY ?hz (p_y pt) i) = Some c \<and>
        \<not> flag ?hz c \<and> (letter c \<noteq> emptySpace (options G) \<longrightarrow> letter c = [q_word ?q ! i])"
      by auto
  qed
  have wr': "writeWord m ?hz (p_x pt) (p_y pt) (\<lambda>i. [?word ! i]) [0..<length (q_word ?q)] = Inr m1"
    using wr by simp
  have "coherent G m'"
    by (rule coherent_place[OF coh mk pf _ _ span _ _ _ wr'])
       (use cls l1 writeWord_fields2[OF wr] in \<open>auto simp: m'\<close>)
  moreover have "questionsData m' = questionsData m @ [?q]"
    using writeWord_fields2[OF wr] by (simp add: m')
  ultimately show ?thesis using w(3) by auto
qed

subsection \<open>What every placement keeps, every loop keeps\<close>

lemma generateQuestionLoop_keeps:
  assumes att: "\<And>m pos m' pos'. P m \<Longrightarrow> attempt G m pos = Inr (Placed m' pos') \<Longrightarrow> P m'"
    and cong: "\<And>m m'. P m \<Longrightarrow> rows m' = rows m \<Longrightarrow> questionsData m' = questionsData m \<Longrightarrow> P m'"
  shows "P m \<Longrightarrow> generateQuestionLoop fuel G intento m pos = Some (Inr (m', pos')) \<Longrightarrow> P m'"
proof (induction fuel arbitrary: intento m pos)
  case 0
  then show ?case by simp
next
  case (Suc fuel)
  show ?case
  proof (cases "finish m")
    case True
    with Suc.prems show ?thesis by simp
  next
    case nf: False
    have bud: "P m1" if "checkBudget G (intento + 1) m = Go i1 m1 \<or> checkBudget G (intento + 1) m = Stop m1"
      for i1 m1
    proof -
      from that have "rows m1 = rows m \<and> questionsData m1 = questionsData m"
        by (auto simp: checkBudget_def split: if_splits)
      with cong[OF Suc.prems(1)] show ?thesis by simp
    qed
    show ?thesis
    proof (cases "checkBudget G (intento + 1) m")
      case (Stop m1)
      with Suc.prems nf bud[of 0 m1] show ?thesis by auto
    next
      case (Go i1 m1)
      with bud[of i1 m1] have c1: "P m1" by simp
      show ?thesis
      proof (cases "attempt G m1 pos")
        case (Inl e)
        with Suc.prems nf Go show ?thesis by simp
      next
        case (Inr a)
        show ?thesis
        proof (cases a)
          case (Placed m2 p2)
          with Suc.prems nf Go Inr have "m' = m2" by simp
          with att[OF c1 Inr[unfolded Placed]] show ?thesis by simp
        next
          case (Failed p2)
          with Suc.prems nf Go Inr
          have "generateQuestionLoop fuel G i1 m1 p2 = Some (Inr (m', pos'))" by simp
          from Suc.IH[OF c1 this] show ?thesis .
        qed
      qed
    qed
  qed
qed

lemma placeWords_keeps:
  assumes att: "\<And>m pos m' pos'. P m \<Longrightarrow> attempt G m pos = Inr (Placed m' pos') \<Longrightarrow> P m'"
    and cong: "\<And>m m'. P m \<Longrightarrow> rows m' = rows m \<Longrightarrow> questionsData m' = questionsData m \<Longrightarrow> P m'"
  shows "P m \<Longrightarrow> placeWords fuel G k m pos = Some (Inr (m', pos')) \<Longrightarrow> P m'"
proof (induction k arbitrary: m pos)
  case 0
  then show ?case by simp
next
  case (Suc k)
  from Suc.prems(2) obtain m1 p1 where
    g: "generateQuestionLoop fuel G 0 m pos = Some (Inr (m1, p1))"
    and r: "placeWords fuel G k m1 p1 = Some (Inr (m', pos'))"
    by (auto simp: generateQuestion_def split: option.splits sum.splits)
  from generateQuestionLoop_keeps[of P G, OF att cong Suc.prems(1) g] have "P m1" by simp
  from Suc.IH[OF this r] show ?case .
qed

lemma iterateLoop_keeps:
  assumes att: "\<And>m pos m' pos'. P m \<Longrightarrow> attempt G m pos = Inr (Placed m' pos') \<Longrightarrow> P m'"
    and cong: "\<And>m m'. P m \<Longrightarrow> rows m' = rows m \<Longrightarrow> questionsData m' = questionsData m \<Longrightarrow> P m'"
    and ms: "\<forall>m \<in> set ms. P m"
  shows "\<forall>m \<in> set sols. P m \<Longrightarrow>
         iterateLoop fuel G ms is sols pos = Some (Inr (out, pos')) \<Longrightarrow>
         \<forall>m \<in> set out. P m"
proof (induction "is" arbitrary: sols pos)
  case Nil
  then show ?case by simp
next
  case (Cons i "is")
  let ?idx = "(length ms * i) div solutionsPerIteration (options G)"
  from Cons.prems(2) have lt: "?idx < length ms"
    by (auto simp: Let_def split: if_splits)
  with Cons.prems(2) obtain m1 p1 where
    p: "placeWords fuel G (wordsPerIteration (options G)) (ms ! ?idx) pos = Some (Inr (m1, p1))"
    and r: "iterateLoop fuel G ms is (sols @ [m1]) p1 = Some (Inr (out, pos'))"
    by (auto simp: Let_def split: option.splits sum.splits)
  from ms lt have "P (ms ! ?idx)" by simp
  from placeWords_keeps[of P G, OF att cong this p] have "P m1" by simp
  with Cons.prems(1) have "\<forall>m \<in> set (sols @ [m1]). P m" by simp
  from Cons.IH[OF this r] show ?case .
qed

lemma selectSolutions_keeps:
  assumes cong: "\<And>m m'. P m \<Longrightarrow> rows m' = rows m \<Longrightarrow> questionsData m' = questionsData m \<Longrightarrow> P m'"
  shows "\<forall>m \<in> set sols. P m \<Longrightarrow> \<forall>m \<in> set (selectSolutions G sols n). P m"
proof
  fix m assume c: "\<forall>m \<in> set sols. P m" and m: "m \<in> set (selectSolutions G sols n)"
  from m selectSolutions_subset[of G sols n] obtain m0 where m0: "m0 \<in> set sols" "m = annotate G m0"
    by auto
  from c m0 have "P m0" by simp
  from cong[OF this, of "annotate G m0"] m0 show "P m" by (simp add: annotate_fields)
qed

lemma iterate_keeps:
  assumes att: "\<And>m pos m' pos'. P m \<Longrightarrow> attempt G m pos = Inr (Placed m' pos') \<Longrightarrow> P m'"
    and cong: "\<And>m m'. P m \<Longrightarrow> rows m' = rows m \<Longrightarrow> questionsData m' = questionsData m \<Longrightarrow> P m'"
    and ms: "\<forall>m \<in> set ms. P m"
    and it: "iterate fuel G ms pos = Some (Inr (out, pos'))"
  shows "\<forall>m \<in> set out. P m"
proof -
  from it obtain sols where
    l: "iterateLoop fuel G ms [0..<solutionsPerIteration (options G)] [] pos = Some (Inr (sols, pos'))"
    and o: "out = selectSolutions G sols (selectedSolutions (options G))"
    by (auto simp: iterate_def split: option.splits sum.splits)
  from iterateLoop_keeps[of P G, OF att cong ms _ l] have "\<forall>m \<in> set sols. P m" by simp
  from selectSolutions_keeps[of P, OF cong this] o show ?thesis by simp
qed

lemma fillMatrix_keeps:
  assumes fill: "\<And>m mpos m' mpos'. P m \<Longrightarrow> fillPass G mr m mpos = Inr (Some (m', mpos')) \<Longrightarrow> P m'"
  shows "P m \<Longrightarrow> fillMatrix fuel G mr m mpos = Some (Inr (m', mpos')) \<Longrightarrow> P m'"
proof (induction fuel arbitrary: m mpos)
  case 0
  then show ?case by simp
next
  case (Suc fuel)
  show ?case
  proof (cases "fillPass G mr m mpos")
    case (Inl e)
    with Suc.prems show ?thesis by simp
  next
    case (Inr r)
    show ?thesis
    proof (cases r)
      case None
      with Inr Suc.prems show ?thesis by simp
    next
      case (Some p)
      obtain m1 p1 where p: "p = (m1, p1)" by (cases p)
      from fill[OF Suc.prems(1) Inr[unfolded Some p]] have "P m1" .
      moreover from Suc.prems(2) Inr Some p
      have "fillMatrix fuel G mr m1 p1 = Some (Inr (m', mpos'))" by simp
      ultimately show ?thesis by (rule Suc.IH)
    qed
  qed
qed

lemma fillAll_keeps:
  assumes fill: "\<And>m mpos m' mpos'. P m \<Longrightarrow> fillPass G mr m mpos = Inr (Some (m', mpos')) \<Longrightarrow> P m'"
  shows "\<forall>m \<in> set ms. P m \<Longrightarrow> fillAll fuel G mr ms mpos = Some (Inr (out, mpos')) \<Longrightarrow>
         \<forall>m \<in> set out. P m"
proof (induction ms arbitrary: mpos out)
  case Nil
  then show ?case by simp
next
  case (Cons m ms)
  from Cons.prems(2) obtain m1 p1 out1 where
    f: "fillMatrix fuel G mr m mpos = Some (Inr (m1, p1))"
    and r: "fillAll fuel G mr ms p1 = Some (Inr (out1, mpos'))"
    and o: "out = m1 # out1"
    by (auto split: option.splits sum.splits)
  from Cons.prems(1) have "P m" by simp
  from fillMatrix_keeps[of P G mr, OF fill this f] have 1: "P m1" by simp
  from Cons.prems(1) have "\<forall>m \<in> set ms. P m" by simp
  from Cons.IH[OF this r] 1 o show ?case by simp
qed

lemma fillEmptySpaces_keeps:
  assumes fill: "\<And>m mpos m' mpos'. P m \<Longrightarrow> fillPass G mr m mpos = Inr (Some (m', mpos')) \<Longrightarrow> P m'"
    and cong: "\<And>m m'. P m \<Longrightarrow> rows m' = rows m \<Longrightarrow> questionsData m' = questionsData m \<Longrightarrow> P m'"
    and ms: "\<forall>m \<in> set ms. P m"
    and fe: "fillEmptySpaces fuel G mr ms mpos = Some (Inr (out, mpos'))"
  shows "\<forall>m \<in> set out. P m"
proof -
  from fe obtain ms1 where
    l: "fillAll fuel G mr ms mpos = Some (Inr (ms1, mpos'))"
    and o: "out = selectSolutions G ms1 (selectedSolutions (options G))"
    by (auto simp: fillEmptySpaces_def split: option.splits sum.splits)
  from fillAll_keeps[of P G mr, OF fill ms l] have "\<forall>m \<in> set ms1. P m" by simp
  from selectSolutions_keeps[of P, OF cong this] o show ?thesis by simp
qed

lemma reachable_keeps:
  assumes gen: "P (generate G)"
    and att: "\<And>m pos m' pos'. P m \<Longrightarrow> attempt G m pos = Inr (Placed m' pos') \<Longrightarrow> P m'"
    and fill: "\<And>mr m mpos m' mpos'. P m \<Longrightarrow> fillPass G mr m mpos = Inr (Some (m', mpos')) \<Longrightarrow> P m'"
    and cong: "\<And>m m'. P m \<Longrightarrow> rows m' = rows m \<Longrightarrow> questionsData m' = questionsData m \<Longrightarrow> P m'"
  shows "reachable G m \<Longrightarrow> P m"
proof (induction rule: reachable.induct)
  case generated
  show ?case by (rule gen)
next
  case (iterated ms fuel pos out pos' m')
  from iterated(1) have "\<forall>m \<in> set ms. P m" by simp
  from iterate_keeps[of P G, OF att cong this iterated(2)] iterated(3) show ?case by simp
next
  case (filled ms fuel mathRandom mpos out mpos' m')
  from filled(1) have "\<forall>m \<in> set ms. P m" by simp
  from fillEmptySpaces_keeps[of P G mathRandom, OF fill cong this filled(2)] filled(3)
  show ?case by simp
qed

subsection \<open>Every reachable matrix is coherent\<close>

lemma tryPoints_step:
  "tryPoints G mr m pts mpos = Inr (Some (m', mpos')) \<Longrightarrow>
   \<exists>pt ms ws. pt \<in> set pts \<and> pointMatches G m pt = Inr ms \<and> candidates G m pt ms = Some ws \<and>
      ws \<noteq> [] \<and> fillPoint G mr m pt ws mpos = Inr m'"
proof (induction pts)
  case Nil
  then show ?case by simp
next
  case (Cons pt pts)
  show ?case
  proof (cases "pointMatches G m pt")
    case (Inl e)
    with Cons.prems show ?thesis by simp
  next
    case (Inr ms)
    show ?thesis
    proof (cases "candidates G m pt ms")
      case None
      with Inr Cons show ?thesis by auto
    next
      case (Some ws)
      show ?thesis
      proof (cases "ws = []")
        case True
        with Inr Some Cons show ?thesis by auto
      next
        case False
        with Inr Some Cons.prems have "fillPoint G mr m pt ws mpos = Inr m'"
          by (auto split: sum.splits)
        with Inr Some False show ?thesis by auto
      qed
    qed
  qed
qed

lemma fillPass_step:
  assumes "fillPass G mr m mpos = Inr (Some (m', mpos'))"
  shows "\<exists>pts pt ms ws. collectPoints G m (allCells G) [] = Inr pts \<and> pt \<in> set pts \<and>
      pointMatches G m pt = Inr ms \<and> candidates G m pt ms = Some ws \<and>
      ws \<noteq> [] \<and> fillPoint G mr m pt ws mpos = Inr m'"
proof -
  from assms obtain pts where c: "collectPoints G m (allCells G) [] = Inr pts"
    and t: "tryPoints G mr m (sortDesc p_size pts) mpos = Inr (Some (m', mpos'))"
    by (auto simp: fillPass_def split: sum.splits)
  from tryPoints_step[OF t] c show ?thesis by (auto simp: set_sortDesc)
qed

lemma fillPass_coherent:
  assumes coh: "coherent G m" and cpl: "compilation (options G) = compile ds"
    and mk: "markerApart (options G)" and fp: "fillPass G mr m mpos = Inr (Some (m', mpos'))"
  shows "coherent G m'"
proof -
  from fillPass_step[OF fp] obtain pts pt ms ws where
    c: "collectPoints G m (allCells G) [] = Inr pts" and p: "pt \<in> set pts"
    and pm: "pointMatches G m pt = Inr ms" and ca: "candidates G m pt ms = Some ws"
    and ne: "ws \<noteq> []" and f: "fillPoint G mr m pt ws mpos = Inr m'" by blast
  from collectPoints_valid[OF c] p have "validPoint m pt" by simp
  from fillPoint_coherent[OF coh cpl mk this pm ca ne f] show ?thesis by simp
qed

lemma reachable_coherent:
  assumes cpl: "compilation (options G) = compile ds" and mk: "markerApart (options G)"
    and r: "reachable G m"
  shows "coherent G m"
proof (rule reachable_keeps[of "coherent G" G, OF _ _ _ _ r])
  show "coherent G (generate G)" by (rule generate_coherent)
  show "coherent G m'" if "coherent G m" "attempt G m pos = Inr (Placed m' pos')" for m pos m' pos'
    using attempt_coherent[OF that(1) cpl mk that(2)] by simp
  show "coherent G m'" if "coherent G m" "fillPass G mr m mpos = Inr (Some (m', mpos'))"
    for mr m mpos m' mpos'
    using fillPass_coherent[OF that(1) cpl mk that(2)] .
  show "coherent G m'" if "coherent G m" "rows m' = rows m" "questionsData m' = questionsData m"
    for m m'
    using that coherent_cong[of m' m G] by simp
qed

section \<open>Placements inside the grid\<close>

lemma bounded_dims:
  "bounded G m \<Longrightarrow> map length (rows m) = replicate (height (options G)) (width (options G))"
  using dims_iff[of "rows m" "height (options G)" "width (options G)"]
  by (simp add: bounded_def)

lemma place_bounded:
  assumes b: "bounded G m" and pf: "placedFrom (compilation (options G)) q"
    and len: "0 < length (q_word q)"
    and qh: "q_horizontal q = hz" and qx: "q_x q = x" and qy: "q_y q = y"
    and wr: "writeWord m hz x y letra [0..<length (q_word q)] = Inr m1"
    and rows': "rows m' = rows m1" and qd': "questionsData m' = questionsData m @ [q]"
  shows "bounded G m' \<and> inside G q"
proof -
  let ?n = "length (q_word q)"
  have dm: "map length (rows m) = replicate (height (options G)) (width (options G))"
    using b by (rule bounded_dims)
  have d': "map length (rows m') = replicate (height (options G)) (width (options G))"
    using writeWord_lengths[OF wr] dm by (simp add: rows')
  from writeWord_written[OF wr, of 0] len obtain c0 where
    c0: "cellAt m (spanX hz x 0) (spanY hz y 0) = Some c0" by auto
  from writeWord_written[OF wr, of "?n - 1"] len obtain c1 where
    c1: "cellAt m (spanX hz x (?n - 1)) (spanY hz y (?n - 1)) = Some c1" by auto
  from cellAt_range[OF dm c0] cellAt_range[OF dm c1] len
  have ins: "inside G q"
    by (cases hz) (auto simp: inside_def qh qx qy spanX_def spanY_def)
  have "\<forall>q' \<in> set (questionsData m'). placedFrom (compilation (options G)) q' \<and> inside G q'"
    using b pf ins by (auto simp: qd' bounded_def)
  with d' ins show ?thesis
    using dims_iff[of "rows m'" "height (options G)" "width (options G)"]
    by (simp add: bounded_def)
qed

lemma attempt_bounded:
  assumes b: "bounded G m" and cpl: "compilation (options G) = compile ds"
    and att: "attempt G m pos = Inr (Placed m' pos')"
  shows "bounded G m' \<and>
    (\<exists>q. questionsData m' = questionsData m @ [q] \<and> inside G q \<and>
       int (length (q_word q)) = targetLength G m (q_horizontal q) (rand (random G) (pos + 1)))"
proof -
  let ?cpl = "compilation (options G)"
  from attempt_Placed[OF att] obtain hz len bk x y s idx m1 where
    len: "len = targetLength G m hz (rand (random G) (pos + 1))"
    and bk: "lengthsAt ?cpl len = Some bk" and ib: "idx \<in> set bk"
    and wr: "writeWord m hz x y (\<lambda>i. normalizeLetter (charAt (words ?cpl ! idx) i))
       [0..<nat len] = Inr m1"
    and m': "m' = addQuestion G m1 \<lparr>q_idx = idx, q_word = words ?cpl ! idx,
            q_horizontal = hz, q_x = x, q_y = y\<rparr>"
    by blast
  let ?word = "words ?cpl ! idx"
  let ?q = "\<lparr>q_idx = idx, q_word = ?word, q_horizontal = hz, q_x = x, q_y = y\<rparr>"
  have cp: "?cpl = compile ds" by (rule cpl)
  from compile_bucket_word[OF cp bk ib] have w: "idx < length (words ?cpl)" "accepted ?word"
    "int (length ?word) = len" "idx \<in> bucket ?cpl (length ?word)" by auto
  from w(2) have l1: "1 < length ?word" by (auto simp: accepted_iff)
  have pf: "placedFrom ?cpl ?q" using w by (simp add: placedFrom_def)
  have wr': "writeWord m hz x y (\<lambda>i. normalizeLetter (charAt (words ?cpl ! idx) i))
       [0..<length (q_word ?q)] = Inr m1" using wr w(3) by auto
  have qd: "questionsData m' = questionsData m @ [?q]"
    using writeWord_fields2[OF wr] by (simp add: m' addQuestion_fields)
  have "bounded G m' \<and> inside G ?q"
    by (rule place_bounded[OF b pf _ _ _ _ wr' _ qd]) (use l1 in \<open>auto simp: m' addQuestion_fields\<close>)
  moreover have "int (length (q_word ?q)) = targetLength G m (q_horizontal ?q) (rand (random G) (pos + 1))"
    using w(3) len by simp
  ultimately show ?thesis using qd by blast
qed

lemma fillPass_bounded:
  assumes b: "bounded G m" and cpl: "compilation (options G) = compile ds"
    and fp: "fillPass G mr m mpos = Inr (Some (m', mpos'))"
  shows "bounded G m' \<and>
    (\<exists>q pts pt. questionsData m' = questionsData m @ [q] \<and> inside G q \<and>
       collectPoints G m (allCells G) [] = Inr pts \<and> pt \<in> set pts \<and>
       int (length (q_word q)) = p_size pt \<and> q_x q = p_x pt \<and> q_y q = p_y pt \<and>
       q_horizontal q = p_horizontal pt)"
proof -
  let ?cpl = "compilation (options G)"
  from fillPass_step[OF fp] obtain pts pt ms ws where
    c: "collectPoints G m (allCells G) [] = Inr pts" and p: "pt \<in> set pts"
    and pm: "pointMatches G m pt = Inr ms" and ca: "candidates G m pt ms = Some ws"
    and ne: "ws \<noteq> []" and f: "fillPoint G mr m pt ws mpos = Inr m'" by blast
  define idx where "idx = ws ! nat \<lfloor>rand mr mpos * of_nat (length ws)\<rfloor>"
  have iw: "idx \<in> set ws" unfolding idx_def by (rule rand_pick[OF ne])
  from candidates_member[OF ca iw] obtain bk where
    bk: "lengthsAt ?cpl (p_size pt) = Some bk" "idx \<in> set bk" by blast
  let ?word = "words ?cpl ! idx"
  let ?q = "\<lparr>q_idx = idx, q_word = ?word, q_horizontal = p_horizontal pt, q_x = p_x pt, q_y = p_y pt\<rparr>"
  have cp: "?cpl = compile ds" by (rule cpl)
  from compile_bucket_word[OF cp bk] have w: "idx < length (words ?cpl)" "accepted ?word"
    "int (length ?word) = p_size pt" "idx \<in> bucket ?cpl (length ?word)" by auto
  from w(2) have l1: "1 < length ?word" by (auto simp: accepted_iff)
  from f w(1) obtain m1 where
    wr: "writeWord m (p_horizontal pt) (p_x pt) (p_y pt) (\<lambda>i. [?word ! i]) [0..<length ?word] = Inr m1"
    and m': "m' = m1\<lparr>questions := insert idx (questions m1),
        questionsData := questionsData m1 @ [?q]\<rparr>"
    by (auto simp: fillPoint_def Let_def idx_def[symmetric] split: sum.splits)
  have pf: "placedFrom ?cpl ?q" using w by (simp add: placedFrom_def)
  have wr': "writeWord m (p_horizontal pt) (p_x pt) (p_y pt) (\<lambda>i. [?word ! i])
      [0..<length (q_word ?q)] = Inr m1" using wr by simp
  have qd: "questionsData m' = questionsData m @ [?q]"
    using writeWord_fields2[OF wr] by (simp add: m')
  have "bounded G m' \<and> inside G ?q"
    by (rule place_bounded[OF b pf _ _ _ _ wr' _ qd]) (use l1 in \<open>auto simp: m'\<close>)
  with qd c p w(3) show ?thesis by auto
qed

lemma generate_bounded: "bounded G (generate G)"
  by (simp add: bounded_def generate_def Let_def)

lemma bounded_cong:
  "bounded G m \<Longrightarrow> rows m' = rows m \<Longrightarrow> questionsData m' = questionsData m \<Longrightarrow> bounded G m'"
  by (simp add: bounded_def)

lemma reachable_bounded:
  assumes cpl: "compilation (options G) = compile ds" and r: "reachable G m"
  shows "bounded G m"
proof (rule reachable_keeps[of "bounded G" G, OF _ _ _ _ r])
  show "bounded G (generate G)" by (rule generate_bounded)
  show "bounded G m'" if "bounded G m" "attempt G m pos = Inr (Placed m' pos')" for m pos m' pos'
    using attempt_bounded[OF that(1) cpl that(2)] by simp
  show "bounded G m'" if "bounded G m" "fillPass G mr m mpos = Inr (Some (m', mpos'))"
    for mr m mpos m' mpos'
    using fillPass_bounded[OF that(1) cpl that(2)] by simp
  show "bounded G m'" if "bounded G m" "rows m' = rows m" "questionsData m' = questionsData m"
    for m m'
    using that by (rule bounded_cong)
qed

lemma first_result:
  assumes "resultMatrices r \<noteq> []"
  shows "\<exists>out p. r = Some (Inr (out, p)) \<and> hd (resultMatrices r) \<in> set out"
proof -
  from assms obtain out p where "r = Some (Inr (out, p))"
    by (auto simp: resultMatrices_def split: option.splits sum.splits)
  with assms show ?thesis by (auto simp: resultMatrices_def)
qed

lemma fill_compilation:
  "compilation (options fillGenerator) = compile [[[''CAT'', ''ARC'', ''MAC'']]]"
  by (simp add: fillGenerator_def fillOptions_def)

lemma catMatrix_reachable: "reachable fillGenerator catMatrix"
proof -
  have "placedWords (iterate 1 fillGenerator [generate fillGenerator] 0) = [[''CAT'']]"
    by code_simp
  then have "resultMatrices (iterate 1 fillGenerator [generate fillGenerator] 0) \<noteq> []"
    by (auto simp: placedWords_def)
  from first_result[OF this] obtain out p where
    r: "iterate 1 fillGenerator [generate fillGenerator] 0 = Some (Inr (out, p))"
    and h: "catMatrix \<in> set out" by (auto simp: catMatrix_def)
  have "\<forall>m \<in> set [generate fillGenerator]. reachable fillGenerator m"
    by (simp add: reachable.generated)
  from reachable.iterated[OF this r h] show ?thesis .
qed

lemma crossMatrix_reachable: "reachable fillGenerator crossMatrix"
proof -
  have "placedWords (fillEmptySpaces 3 fillGenerator (\<lambda>n. 0) [catMatrix] 0) = [[''CAT'', ''ARC'']]"
    by code_simp
  then have "resultMatrices (fillEmptySpaces 3 fillGenerator (\<lambda>n. 0) [catMatrix] 0) \<noteq> []"
    by (auto simp: placedWords_def)
  from first_result[OF this] obtain out p where
    r: "fillEmptySpaces 3 fillGenerator (\<lambda>n. 0) [catMatrix] 0 = Some (Inr (out, p))"
    and h: "crossMatrix \<in> set out" by (auto simp: crossMatrix_def)
  have "\<forall>m \<in> set [catMatrix]. reachable fillGenerator m"
    by (simp add: catMatrix_reachable)
  from reachable.filled[OF this r h] show ?thesis .
qed

text \<open>
  Claim C10. For a generator over a compilation made by \<open>compile\<close>, every entry of the
  placement list of every reachable matrix lies inside the grid: \<open>x\<close> and \<open>y\<close> are not
  negative, a horizontal word ends at the width or before it, a vertical word at the
  height or before it. Each placement step on a reachable matrix appends one entry that
  lies inside the grid and whose word has the length it was selected for: the target
  length of the attempt in \<open>#generateQuestion\<close>, the size of the run of one of the
  points found by the scan in \<open>fillEmptySpaces\<close>, at the position of that point.
\<close>

theorem placements_inside_grid:
  assumes "compilation (options G) = compile ds" and "reachable G m"
  shows "(\<forall>q \<in> set (questionsData m). inside G q) \<and>
    (\<forall>pos m' pos'. attempt G m pos = Inr (Placed m' pos') \<longrightarrow>
       (\<exists>q. questionsData m' = questionsData m @ [q] \<and> inside G q \<and>
          int (length (q_word q)) =
            targetLength G m (q_horizontal q) (rand (random G) (pos + 1)))) \<and>
    (\<forall>mathRandom mpos m' mpos'. fillPass G mathRandom m mpos = Inr (Some (m', mpos')) \<longrightarrow>
       (\<exists>q pts pt. questionsData m' = questionsData m @ [q] \<and> inside G q \<and>
          collectPoints G m (allCells G) [] = Inr pts \<and> pt \<in> set pts \<and>
          int (length (q_word q)) = p_size pt \<and> q_x q = p_x pt \<and> q_y q = p_y pt \<and>
          q_horizontal q = p_horizontal pt))"
proof -
  from reachable_bounded[OF assms] have b: "bounded G m" .
  then have 1: "\<forall>q \<in> set (questionsData m). inside G q" by (simp add: bounded_def)
  from attempt_bounded[OF b assms(1)] fillPass_bounded[OF b assms(1)] 1
  show ?thesis by blast
qed

theorem placements_inside_grid_witness:
  "questionsData crossMatrix =
     [\<lparr>q_idx = 0, q_word = ''CAT'', q_horizontal = False, q_x = 2, q_y = 0\<rparr>,
      \<lparr>q_idx = 1, q_word = ''ARC'', q_horizontal = True, q_x = 0, q_y = 0\<rparr>] \<and>
   inside fillGenerator \<lparr>q_idx = 0, q_word = ''CAT'', q_horizontal = False, q_x = 2, q_y = 0\<rparr> \<and>
   inside fillGenerator \<lparr>q_idx = 1, q_word = ''ARC'', q_horizontal = True, q_x = 0, q_y = 0\<rparr>"
proof -
  have q: "questionsData crossMatrix =
     [\<lparr>q_idx = 0, q_word = ''CAT'', q_horizontal = False, q_x = 2, q_y = 0\<rparr>,
      \<lparr>q_idx = 1, q_word = ''ARC'', q_horizontal = True, q_x = 0, q_y = 0\<rparr>]"
    by code_simp
  from placements_inside_grid[OF fill_compilation crossMatrix_reachable]
  have "\<forall>q \<in> set (questionsData crossMatrix). inside fillGenerator q" by blast
  with q show ?thesis by simp
qed

section \<open>Crossing cells\<close>

text \<open>
  Claim C2, as stated: in every matrix that \<open>iterate\<close> or \<open>fillEmptySpaces\<close> produces,
  the two words that cover a cell with both flags have the same character there. The
  emptiness of a cell is read off its letter. With the empty marker \<open>A\<close>, the cell of
  the \<open>A\<close> of the vertical \<open>CAT\<close> counts as empty, the horizontal \<open>DOG\<close> is written
  across it without a constraint, and the cell with both flags holds \<open>O\<close> where \<open>CAT\<close>
  has \<open>A\<close>.
\<close>

theorem crossing_letters_counterexample:
  "questionsData clashMatrix =
     [\<lparr>q_idx = 0, q_word = ''CAT'', q_horizontal = False, q_x = 2, q_y = 0\<rparr>,
      \<lparr>q_idx = 1, q_word = ''DOG'', q_horizontal = True, q_x = 1, q_y = 1\<rparr>] \<and>
   cellAt clashMatrix 2 1 = Some \<lparr>letter = ''O'', inVertical = True, inHorizontal = True\<rparr> \<and>
   covers (questionsData clashMatrix ! 0) 2 1 \<and> covers (questionsData clashMatrix ! 1) 2 1 \<and>
   charAtCell (questionsData clashMatrix ! 0) 2 1 = CHR ''A'' \<and>
   charAtCell (questionsData clashMatrix ! 1) 2 1 = CHR ''O''"
  by code_simp

text \<open>
  Claim C2, amended. For a generator over a compilation made by \<open>compile\<close> whose empty
  marker is not a string of one character of the word pattern, in every reachable
  matrix: a cell with both flags is covered by exactly one horizontal and exactly one
  vertical entry of the placement list, all entries that cover it have the same
  character there, and two different entries of the same orientation share no cell.
\<close>

theorem crossings_agree:
  assumes "compilation (options G) = compile ds" and "markerApart (options G)"
    and "reachable G m"
  shows "(\<forall>cx cy c. cellAt m cx cy = Some c \<and> inHorizontal c \<and> inVertical c \<longrightarrow>
       (\<exists>!q. q \<in> set (questionsData m) \<and> q_horizontal q \<and> covers q cx cy) \<and>
       (\<exists>!q. q \<in> set (questionsData m) \<and> \<not> q_horizontal q \<and> covers q cx cy) \<and>
       (\<forall>h v. h \<in> set (questionsData m) \<and> v \<in> set (questionsData m) \<and>
              covers h cx cy \<and> covers v cx cy \<longrightarrow> charAtCell h cx cy = charAtCell v cx cy)) \<and>
    (\<forall>i j. i < length (questionsData m) \<and> j < length (questionsData m) \<and> i \<noteq> j \<and>
       q_horizontal (questionsData m ! i) = q_horizontal (questionsData m ! j) \<longrightarrow>
       \<not> (\<exists>cx cy. covers (questionsData m ! i) cx cy \<and> covers (questionsData m ! j) cx cy))"
proof -
  from reachable_coherent[OF assms] have coh: "coherent G m" .
  have uniq: "q1 = q2" if "q1 \<in> set (questionsData m)" "q2 \<in> set (questionsData m)"
    "q_horizontal q1 = q_horizontal q2" "covers q1 cx cy" "covers q2 cx cy" for q1 q2 cx cy
  proof (rule ccontr)
    assume ne: "q1 \<noteq> q2"
    from that(1,2) obtain i j where ij: "i < length (questionsData m)" "questionsData m ! i = q1"
      "j < length (questionsData m)" "questionsData m ! j = q2" by (auto simp: in_set_conv_nth)
    with ne have "i \<noteq> j" by auto
    from coherent_disjoint[OF coh ij(1) ij(3) this, of cx cy] that ij show False by simp
  qed
  have cross: "(\<exists>!q. q \<in> set (questionsData m) \<and> q_horizontal q \<and> covers q cx cy) \<and>
       (\<exists>!q. q \<in> set (questionsData m) \<and> \<not> q_horizontal q \<and> covers q cx cy) \<and>
       (\<forall>h v. h \<in> set (questionsData m) \<and> v \<in> set (questionsData m) \<and>
              covers h cx cy \<and> covers v cx cy \<longrightarrow> charAtCell h cx cy = charAtCell v cx cy)"
    if c: "cellAt m cx cy = Some c" "inHorizontal c" "inVertical c" for cx cy c
  proof -
    from coherent_cellD[OF coh c(1)] c(2,3) obtain h v where
      h: "h \<in> set (questionsData m)" "q_horizontal h" "covers h cx cy"
      and v: "v \<in> set (questionsData m)" "\<not> q_horizontal v" "covers v cx cy" by blast
    have 1: "\<exists>!q. q \<in> set (questionsData m) \<and> q_horizontal q \<and> covers q cx cy"
      using h uniq[of _ _ cx cy] by (intro ex1I[of _ h]) auto
    have 2: "\<exists>!q. q \<in> set (questionsData m) \<and> \<not> q_horizontal q \<and> covers q cx cy"
      using v uniq[of _ _ cx cy] by (intro ex1I[of _ v]) auto
    have 3: "charAtCell a cx cy = charAtCell b cx cy"
      if "a \<in> set (questionsData m)" "b \<in> set (questionsData m)" "covers a cx cy" "covers b cx cy"
      for a b
      using coherent_covered[OF coh c(1) that(1,3)] coherent_covered[OF coh c(1) that(2,4)] by simp
    from 1 2 3 show ?thesis by blast
  qed
  have dis: "\<not> (\<exists>cx cy. covers (questionsData m ! i) cx cy \<and> covers (questionsData m ! j) cx cy)"
    if "i < length (questionsData m)" "j < length (questionsData m)" "i \<noteq> j"
      "q_horizontal (questionsData m ! i) = q_horizontal (questionsData m ! j)" for i j
    using coherent_disjoint[OF coh that] by blast
  from cross dis show ?thesis by blast
qed

lemma fill_marker: "markerApart (options fillGenerator)"
  by (auto simp: markerApart_def fillGenerator_def fillOptions_def inClass_def Let_def)

theorem crossings_agree_witness:
  "cellAt crossMatrix 2 0 = Some \<lparr>letter = ''C'', inVertical = True, inHorizontal = True\<rparr> \<and>
   charAtCell \<lparr>q_idx = 1, q_word = ''ARC'', q_horizontal = True, q_x = 0, q_y = 0\<rparr> 2 0 =
   charAtCell \<lparr>q_idx = 0, q_word = ''CAT'', q_horizontal = False, q_x = 2, q_y = 0\<rparr> 2 0"
proof -
  have q: "questionsData crossMatrix =
     [\<lparr>q_idx = 0, q_word = ''CAT'', q_horizontal = False, q_x = 2, q_y = 0\<rparr>,
      \<lparr>q_idx = 1, q_word = ''ARC'', q_horizontal = True, q_x = 0, q_y = 0\<rparr>]"
    by code_simp
  have c: "cellAt crossMatrix 2 0 = Some \<lparr>letter = ''C'', inVertical = True, inHorizontal = True\<rparr>"
    by code_simp
  have cv: "covers \<lparr>q_idx = 1, q_word = ''ARC'', q_horizontal = True, q_x = 0, q_y = 0\<rparr> 2 0"
    "covers \<lparr>q_idx = 0, q_word = ''CAT'', q_horizontal = False, q_x = 2, q_y = 0\<rparr> 2 0"
    by (simp_all add: covers_def)
  from crossings_agree[OF fill_compilation fill_marker crossMatrix_reachable] c
  have "\<forall>h v. h \<in> set (questionsData crossMatrix) \<and> v \<in> set (questionsData crossMatrix) \<and>
      covers h 2 0 \<and> covers v 2 0 \<longrightarrow> charAtCell h 2 0 = charAtCell v 2 0"
    by simp
  with q cv c show ?thesis by simp
qed

end
